theory Spec2Isabelle
  imports Main "HOL-Library.AList"
begin

section \<open>JSON values as the JavaScript runtime holds them\<close>

text \<open>
  The translator of \<^verbatim>\<open>src/proxy.js\<close> works on the objects that \<^verbatim>\<open>JSON.parse\<close> built from
  the request body. An object is the list of its own enumerable properties in the order
  \<^verbatim>\<open>Object.entries\<close> lists them, together with its prototype: \<open>None\<close> is
  \<^verbatim>\<open>Object.prototype\<close>, \<open>Some JNull\<close> is the prototype \<^verbatim>\<open>null\<close>, \<open>Some q\<close> is the object or
  array \<open>q\<close>. A parsed request has \<open>None\<close> everywhere; the schema sanitiser can build
  an object with another prototype, because it assigns \<^verbatim>\<open>cleaned[key] = ...\<close> for every
  key of its input, and the key \<^verbatim>\<open>__proto__\<close> names the prototype accessor. Numbers are
  integers here: no function below computes with them, they are only tested for zero.
\<close>

datatype json =
    JNull
  | JBool bool
  | JNum int
  | JStr string
  | JArr "json list"
  | JObj "(string \<times> json) list" "json option"

text \<open>The object under construction in a loop: own properties and prototype.\<close>

type_synonym js_object = "(string \<times> json) list \<times> json option"

text \<open>The exceptions a call can end with; \<open>Inl\<close> of a result is the exception thrown.\<close>

datatype js_error = TypeError | RangeError

text \<open>JavaScript truthiness (\<^verbatim>\<open>if (v)\<close>, \<^verbatim>\<open>v && ...\<close>, \<^verbatim>\<open>v || ...\<close>).\<close>

fun truthy :: "json \<Rightarrow> bool" where
  "truthy JNull = False"
| "truthy (JBool b) = b"
| "truthy (JNum n) = (n \<noteq> 0)"
| "truthy (JStr s) = (s \<noteq> [])"
| "truthy (JArr xs) = True"
| "truthy (JObj es p) = True"

text \<open>\<^verbatim>\<open>typeof v === 'object' && v !== null\<close>: arrays and objects.\<close>

fun is_object :: "json \<Rightarrow> bool" where
  "is_object (JArr xs) = True"
| "is_object (JObj es p) = True"
| "is_object v = False"

text \<open>
  The property read \<^verbatim>\<open>o.k\<close> for a name \<open>k\<close> that is neither an array index nor a
  built-in of \<^verbatim>\<open>Array.prototype\<close> or \<^verbatim>\<open>Object.prototype\<close> (the code reads \<^verbatim>\<open>required\<close> and
  \<^verbatim>\<open>properties\<close> this way): the own property, else the prototype chain. \<open>None\<close> is
  \<^verbatim>\<open>undefined\<close>.
\<close>

fun get_prop :: "json \<Rightarrow> string \<Rightarrow> json option" where
  "get_prop (JObj es p) k =
     (case map_of es k of
        Some v \<Rightarrow> Some v
      | None \<Rightarrow> (case p of None \<Rightarrow> None | Some q \<Rightarrow> get_prop q k))"
| "get_prop v k = None"

text \<open>
  The assignment \<^verbatim>\<open>o[k] = v\<close> on a plain object: an own property keeps its place and
  takes the new value, a new one goes to the end. The key \<^verbatim>\<open>__proto__\<close> reaches the
  accessor of \<^verbatim>\<open>Object.prototype\<close>, which replaces the prototype when \<open>v\<close> is an object,
  an array or \<^verbatim>\<open>null\<close> and does nothing otherwise. (The sanitiser starts from \<^verbatim>\<open>{}\<close>,
  which inherits the accessor; the keys of a parsed object are distinct, so the loop
  assigns \<^verbatim>\<open>__proto__\<close> at most once, and the object it assigns is one it has just
  built, which the accessor does not refuse.)
\<close>

fun set_prop :: "js_object \<Rightarrow> string \<Rightarrow> json \<Rightarrow> js_object" where
  "set_prop (es, p) k v =
     (if k = ''__proto__''
      then (case v of
              JObj a b \<Rightarrow> (es, Some v)
            | JArr a \<Rightarrow> (es, Some v)
            | JNull \<Rightarrow> (es, Some JNull)
            | _ \<Rightarrow> (es, p))
      else (AList.update k v es, p))"

text \<open>\<^verbatim>\<open>delete o[k]\<close> removes the own property.\<close>

fun delete_prop :: "js_object \<Rightarrow> string \<Rightarrow> js_object" where
  "delete_prop (es, p) k = (AList.delete k es, p)"

text \<open>Decimal digits of an array index, as \<^verbatim>\<open>Object.keys\<close> names them.\<close>

definition digit_char :: "nat \<Rightarrow> char" where
  "digit_char d = char_of (48 + d)"

function string_of_nat :: "nat \<Rightarrow> string" where
  "string_of_nat n =
     (if n < 10 then [digit_char n] else string_of_nat (n div 10) @ [digit_char (n mod 10)])"
  by pat_completeness auto
termination
  by (relation "measure (\<lambda>n. n)") auto

declare string_of_nat.simps [simp del]

text \<open>
  \<^verbatim>\<open>Object.keys(v)\<close> for a truthy value: the own property names of an object, the
  indices of an array or of a string, nothing for a number or a boolean.
\<close>

fun object_keys :: "json \<Rightarrow> string list" where
  "object_keys (JObj es p) = map fst es"
| "object_keys (JArr xs) = map string_of_nat [0..<length xs]"
| "object_keys (JStr s) = map string_of_nat [0..<length s]"
| "object_keys v = []"

text \<open>\<^verbatim>\<open>names.includes(v)\<close> on an array of strings: only an equal string is found.\<close>

fun array_includes :: "string list \<Rightarrow> json \<Rightarrow> bool" where
  "array_includes ks (JStr s) = (s \<in> set ks)"
| "array_includes ks v = False"

text \<open>
  \<^verbatim>\<open>xs.includes(v)\<close> on an array of values: a string, a number, a boolean or \<^verbatim>\<open>null\<close> is
  found when an equal one is an element. An object or an array is found by identity
  only; the one array searched this way below holds strings, so it is not found.
\<close>

fun js_includes :: "json list \<Rightarrow> json \<Rightarrow> bool" where
  "js_includes xs (JArr ys) = False"
| "js_includes xs (JObj es p) = False"
| "js_includes xs v = (v \<in> set xs)"

text \<open>
  The results of a run of calls, as \<^verbatim>\<open>Array.prototype.map\<close> and \<^verbatim>\<open>join\<close> collect them: the
  first exception ends the run.
\<close>

fun collect :: "('e + 'a) list \<Rightarrow> 'e + 'a list" where
  "collect [] = Inr []"
| "collect (Inl e # rs) = Inl e"
| "collect (Inr x # rs) = (case collect rs of Inl e \<Rightarrow> Inl e | Inr xs \<Rightarrow> Inr (x # xs))"

text \<open>The strings of a list with a separator between them.\<close>

fun join :: "string \<Rightarrow> string list \<Rightarrow> string" where
  "join sep [] = []"
| "join sep [x] = x"
| "join sep (x # y # ys) = x @ sep @ join sep (y # ys)"

text \<open>
  \<^verbatim>\<open>xs.join(sep)\<close> on an array of values. An element \<^verbatim>\<open>null\<close> gives the empty string; every
  other element is converted by the runtime's \<^verbatim>\<open>ToString\<close>, which is the argument
  \<open>to_string\<close>: it gives the string of a primitive, and for an object it looks for a
  callable \<^verbatim>\<open>toString\<close> or \<^verbatim>\<open>valueOf\<close> along the prototype chain and throws a \<^verbatim>\<open>TypeError\<close>
  when it finds none that returns a primitive, as for an object whose prototype is
  \<^verbatim>\<open>null\<close> or whose \<^verbatim>\<open>toString\<close> property is a JSON value. (For an object that inherits
  from an array the conversion runs the inherited \<^verbatim>\<open>join\<close> over an inherited or overridden
  \<^verbatim>\<open>length\<close>; the conversion is therefore taken from the runtime and not computed here,
  and every statement below holds for each \<open>to_string\<close>.) The exception of an element is
  the exception of the \<^verbatim>\<open>join\<close>.
\<close>

definition js_join :: "(json \<Rightarrow> js_error + string) \<Rightarrow> string \<Rightarrow> json list \<Rightarrow> js_error + string" where
  "js_join to_string sep xs =
     (case collect (map (\<lambda>x. case x of JNull \<Rightarrow> Inr [] | _ \<Rightarrow> to_string x) xs) of
        Inl e \<Rightarrow> Inl e
      | Inr strs \<Rightarrow> Inr (join sep strs))"

section \<open>The schema sanitiser\<close>

text \<open>
  \<^verbatim>\<open>cleanJsonSchema\<close> of \<^verbatim>\<open>src/proxy.js\<close> (the current revision, the second in the file).
  Its \<^verbatim>\<open>depth\<close> and \<^verbatim>\<open>path\<close> arguments only feed \<^verbatim>\<open>console.log\<close> with strings and are left
  out, and so are the lines it logs. One logged line is kept for what it can throw: the
  line about the names dropped from \<^verbatim>\<open>required\<close> joins the dropped entries, which are
  sanitised values of any kind, and \<^verbatim>\<open>join\<close> converts each to a string.
\<close>

definition unsupportedFields :: "string list" where
  "unsupportedFields =
     [''additionalProperties'', ''$schema'', ''$id'', ''$ref'', ''definitions'', ''title'',
      ''examples'', ''default'',
      ''readOnly'', ''writeOnly'',
      ''exclusiveMinimum'', ''exclusiveMaximum'', ''minimum'', ''maximum'', ''multipleOf'',
      ''pattern'', ''format'', ''minLength'', ''maxLength'',
      ''minItems'', ''maxItems'', ''uniqueItems'',
      ''minProperties'', ''maxProperties'', ''patternProperties'', ''dependencies'',
      ''contentMediaType'', ''contentEncoding'',
      ''const'', ''allOf'', ''anyOf'', ''oneOf'', ''not'']"

text \<open>
  The block after the loop: when \<^verbatim>\<open>cleaned.required\<close> is an array and
  \<^verbatim>\<open>cleaned.properties\<close> is truthy, \<^verbatim>\<open>required\<close> keeps the names that are keys of
  \<^verbatim>\<open>properties\<close>; when it has lost an entry, the entries that are no longer in it are
  joined for the log, which can throw; and \<^verbatim>\<open>required\<close> is deleted when none is left.
\<close>

definition clean_required :: "(json \<Rightarrow> js_error + string) \<Rightarrow> js_object \<Rightarrow> js_error + js_object" where
  "clean_required to_string cleaned =
     (case get_prop (JObj (fst cleaned) (snd cleaned)) ''required'' of
        Some (JArr originalRequired) \<Rightarrow>
          (case get_prop (JObj (fst cleaned) (snd cleaned)) ''properties'' of
             Some props \<Rightarrow>
               if truthy props
               then (let validProperties = object_keys props;
                         required = filter (array_includes validProperties) originalRequired;
                         cleaned' = set_prop cleaned ''required'' (JArr required)
                     in case (if length required < length originalRequired
                              then (let removed = filter (\<lambda>prop. \<not> js_includes required prop)
                                                         originalRequired
                                    in js_join to_string '', '' removed)
                              else Inr [])
                        of Inl e \<Rightarrow> Inl e
                         | Inr logged \<Rightarrow>
                             Inr (if required = [] then delete_prop cleaned' ''required''
                                  else cleaned'))
               else Inr cleaned
           | None \<Rightarrow> Inr cleaned)
      | _ \<Rightarrow> Inr cleaned)"

text \<open>
  The function itself. An array is mapped; for an object the loop runs over
  \<^verbatim>\<open>Object.entries(schema)\<close>, and an exception in a nested call ends it; every other
  value is returned as it is. The recursion is as deep as the value is nested; the limit
  of the runtime's call stack is not modelled.
\<close>

fun cleanJsonSchema :: "(json \<Rightarrow> js_error + string) \<Rightarrow> json \<Rightarrow> js_error + json" where
  "cleanJsonSchema to_string (JArr xs) =
     (case collect (map (cleanJsonSchema to_string) xs) of
        Inl e \<Rightarrow> Inl e
      | Inr ys \<Rightarrow> Inr (JArr ys))"
| "cleanJsonSchema to_string (JObj es p) =
     (case foldl (\<lambda>state kv.
                    case state of
                      Inl e \<Rightarrow> Inl e
                    | Inr cleaned \<Rightarrow>
                        if fst kv \<in> set unsupportedFields then Inr cleaned
                        else if is_object (snd kv)
                        then (case cleanJsonSchema to_string (snd kv) of
                                Inl e \<Rightarrow> Inl e
                              | Inr value \<Rightarrow> Inr (set_prop cleaned (fst kv) value))
                        else Inr (set_prop cleaned (fst kv) (snd kv)))
                 (Inr ([], None)) es
      of Inl e \<Rightarrow> Inl e
       | Inr cleaned \<Rightarrow>
           (case clean_required to_string cleaned of
              Inl e \<Rightarrow> Inl e
            | Inr (es', p') \<Rightarrow> Inr (JObj es' p')))"
| "cleanJsonSchema to_string v = Inr v"

text \<open>
  The object that the block after the loop leaves when it does not throw; the proofs
  below work with it.
\<close>

definition required_filtered :: "js_object \<Rightarrow> js_object" where
  "required_filtered cleaned =
     (case get_prop (JObj (fst cleaned) (snd cleaned)) ''required'' of
        Some (JArr originalRequired) \<Rightarrow>
          (case get_prop (JObj (fst cleaned) (snd cleaned)) ''properties'' of
             Some props \<Rightarrow>
               if truthy props
               then (let validProperties = object_keys props;
                         required = filter (array_includes validProperties) originalRequired;
                         cleaned' = set_prop cleaned ''required'' (JArr required)
                     in if required = [] then delete_prop cleaned' ''required'' else cleaned')
               else cleaned
           | None \<Rightarrow> cleaned)
      | _ \<Rightarrow> cleaned)"

text \<open>
  The value that the loop assigns for an entry when the nested call returns; \<open>JNull\<close>
  stands in where it throws and nothing is assigned.
\<close>

definition entry_value :: "(json \<Rightarrow> js_error + string) \<Rightarrow> string \<times> json \<Rightarrow> json" where
  "entry_value to_string kv =
     (if is_object (snd kv)
      then (case cleanJsonSchema to_string (snd kv) of Inl e \<Rightarrow> JNull | Inr value \<Rightarrow> value)
      else snd kv)"


text \<open>
  The rejected keywords as the specification lists them, and what it means that none of
  them is a key at any depth of a value: in no element of an array, in no own property
  of an object, and not in its prototype either.
\<close>

definition rejected_keywords :: "string list" where
  "rejected_keywords =
     [''$schema'', ''$id'', ''$ref'', ''definitions'', ''title'', ''examples'', ''default'',
      ''readOnly'', ''writeOnly'', ''additionalProperties'', ''minimum'', ''maximum'',
      ''exclusiveMinimum'', ''exclusiveMaximum'', ''multipleOf'', ''pattern'', ''format'',
      ''minLength'', ''maxLength'', ''minItems'', ''maxItems'', ''uniqueItems'',
      ''minProperties'', ''maxProperties'', ''patternProperties'', ''dependencies'',
      ''contentMediaType'', ''contentEncoding'', ''const'', ''allOf'', ''anyOf'', ''oneOf'',
      ''not'']"

fun rejected_free :: "json \<Rightarrow> bool" where
  "rejected_free (JArr xs) = list_all rejected_free xs"
| "rejected_free (JObj es p) =
     (list_all (\<lambda>kv. fst kv \<notin> set rejected_keywords \<and> rejected_free (snd kv)) es
      \<and> (case p of None \<Rightarrow> True | Some q \<Rightarrow> rejected_free q))"
| "rejected_free v = True"

text \<open>The tool schema of the specification's scenario S1.\<close>

definition S1_schema :: json where
  "S1_schema =
     JObj [(''type'', JStr ''object''),
           (''properties'',
              JObj [(''q'', JObj [(''type'', JStr ''string''), (''pattern'', JStr ''^x$''),
                                 (''minLength'', JNum 1)] None)] None),
           (''required'', JArr [JStr ''q'']),
           (''additionalProperties'', JBool False),
           (''$schema'', JStr ''http://x'')] None"

text \<open>
  The JSON value an object stands for: its own properties, hereditarily, without the
  prototypes. This is what \<^verbatim>\<open>JSON.stringify\<close> sends and what two results are compared by.
\<close>

fun own_json :: "json \<Rightarrow> json" where
  "own_json (JArr xs) = JArr (map own_json xs)"
| "own_json (JObj es p) = JObj (map (\<lambda>kv. (fst kv, own_json (snd kv))) es) None"
| "own_json v = v"






text \<open>
  A stand-in for the runtime's \<^verbatim>\<open>ToString\<close> where an example needs a closed term; the
  examples that use it convert nothing.
\<close>

definition to_string_stub :: "json \<Rightarrow> js_error + string" where
  "to_string_stub v = Inr ''[object Object]''"


text \<open>
  Two schemas whose \<^verbatim>\<open>required\<close> loses an entry that \<^verbatim>\<open>ToString\<close> cannot convert:
  \<^verbatim>\<open>{"properties": {}, "required": [{"__proto__": null}]}\<close>, where the entry is sanitised
  to an object with the prototype \<^verbatim>\<open>null\<close>, and
  \<^verbatim>\<open>{"properties": {}, "required": [{"toString": 1}]}\<close>.
\<close>

definition null_proto_required :: json where
  "null_proto_required =
     JObj [(''properties'', JObj [] None),
           (''required'', JArr [JObj [(''__proto__'', JNull)] None])] None"

definition toString_required :: json where
  "toString_required =
     JObj [(''properties'', JObj [] None),
           (''required'', JArr [JObj [(''toString'', JNum 1)] None])] None"

section \<open>The request translator\<close>

subsection \<open>Dialect A requests\<close>

text \<open>
  A content block is a JavaScript object with a \<^verbatim>\<open>type\<close>; the translator reads the fields
  named here and skips a block of any other type. The \<^verbatim>\<open>content\<close> of a \<^verbatim>\<open>tool_result\<close> is
  any JSON value or absent (\<open>None\<close> is \<^verbatim>\<open>undefined\<close>), \<^verbatim>\<open>is_error\<close> is read for its
  truthiness only, and the \<^verbatim>\<open>input\<close> of a \<^verbatim>\<open>tool_use\<close> may be absent.
\<close>

datatype block =
    TextBlock string
  | ImageBlock string string
  | ToolResultBlock string "json option" bool
  | ToolUseBlock string string "json option"
  | OtherBlock string

text \<open>\<^verbatim>\<open>msg.content\<close>: a string, an array of blocks, or anything else (no part is made).\<close>

datatype message_content =
    StringContent string
  | BlockContent "block list"
  | OtherContent

record message =
  msg_role :: string
  msg_content :: message_content

datatype system_prompt = SystemString string | SystemBlocks "block list"

record tool =
  tool_name :: string
  tool_description :: "string option"
  input_schema :: "json option"

text \<open>
  The fields of the request. \<open>None\<close> is an absent field. \<^verbatim>\<open>tool_choice\<close> is a field of the
  dialect; no line of \<^verbatim>\<open>claudeToGeminiRequest\<close> reads it. \<^verbatim>\<open>model\<close> and \<^verbatim>\<open>stream\<close> are only
  printed by the function and are left out.
\<close>

record claude_request =
  system :: "system_prompt option"
  messages :: "message list option"
  max_tokens :: "int option"
  temperature :: "json option"
  top_p :: "json option"
  top_k :: "json option"
  stop_sequences :: "json option"
  tools :: "tool list option"
  tool_choice :: "json option"

subsection \<open>Dialect G requests\<close>

text \<open>
  A part is \<^verbatim>\<open>{text}\<close>, \<^verbatim>\<open>{inlineData: {mimeType, data}}\<close>,
  \<^verbatim>\<open>{functionResponse: {name, response}}\<close> or \<^verbatim>\<open>{functionCall: {name, args}}\<close>.
\<close>

datatype part =
    TextPart string
  | InlineDataPart string string
  | FunctionResponsePart string json
  | FunctionCallPart string json

record gemini_content =
  role :: string
  parts :: "part list"

record generation_config =
  maxOutputTokens :: "int option"
  gc_temperature :: "json option"
  topP :: "json option"
  topK :: "json option"
  stopSequences :: "json option"

record function_declaration =
  fd_name :: string
  fd_description :: string
  parameters :: "json option"

text \<open>
  The object the function returns. These are all the keys it ever assigns:
  \<^verbatim>\<open>contents\<close>, \<^verbatim>\<open>safetySettings\<close> and \<^verbatim>\<open>generationConfig\<close> always, \<^verbatim>\<open>system_instruction\<close> and
  \<^verbatim>\<open>tools\<close> when present (\<open>None\<close> is a key that was never set). \<^verbatim>\<open>system_instruction\<close>
  holds the text of its single part, \<open>gemini_tools\<close> the \<^verbatim>\<open>functionDeclarations\<close> of the
  single element of \<^verbatim>\<open>tools\<close>.
\<close>

record gemini_request =
  contents :: "gemini_content list"
  safetySettings :: "(string \<times> string) list"
  generationConfig :: generation_config
  system_instruction :: "string option"
  gemini_tools :: "function_declaration list option"

text \<open>
  The module-level \<^verbatim>\<open>mcpIntegration\<close> (\<open>None\<close> is \<^verbatim>\<open>null\<close>), as far as the translator uses
  it: the \<^verbatim>\<open>initialized\<close> flag, the result of \<^verbatim>\<open>getClaudeTools()\<close> and the test \<^verbatim>\<open>isMcpTool\<close>.
\<close>

record mcp_integration =
  initialized :: bool
  getClaudeTools :: "tool list"
  isMcpTool :: "string \<Rightarrow> bool"

text \<open>
  The console lines of the \<^verbatim>\<open>tool_result\<close> branch: three \<^verbatim>\<open>console.warn\<close> (unexpected
  content type; tool execution failed, with the function name and the id; function name
  not found, with the id) and one \<^verbatim>\<open>console.log\<close> (converted, with the id and the function
  name). The other console lines of the function are not recorded.
\<close>

datatype log_line =
    WarnUnexpectedContentType
  | WarnToolExecutionFailed string string
  | LogConvertedToolResult string string
  | WarnFunctionNameNotFound string

subsection \<open>The translation\<close>

definition safety_settings :: "(string \<times> string) list" where
  "safety_settings =
     map (\<lambda>category. (category, ''BLOCK_NONE''))
       [''HARM_CATEGORY_HATE_SPEECH'', ''HARM_CATEGORY_SEXUALLY_EXPLICIT'',
        ''HARM_CATEGORY_DANGEROUS_CONTENT'', ''HARM_CATEGORY_HARASSMENT'',
        ''HARM_CATEGORY_CIVIC_INTEGRITY'']"

text \<open>The system text: the string, or the non-empty texts of the text blocks, joined.\<close>

definition system_text :: "system_prompt \<Rightarrow> string" where
  "system_text s =
     (case s of
        SystemString t \<Rightarrow> t
      | SystemBlocks bs \<Rightarrow>
          join [CHR 0x0A, CHR 0x0A]
            (filter (\<lambda>t. t \<noteq> [])
               (map (\<lambda>b. case b of TextBlock t \<Rightarrow> t | _ \<Rightarrow> []) bs)))"

text \<open>
  The inner loop of the name search: the name of the first \<^verbatim>\<open>tool_use\<close> block of one
  message whose id is \<open>T\<close> (the loop breaks there).
\<close>

fun find_tool_use :: "string \<Rightarrow> block list \<Rightarrow> string option" where
  "find_tool_use T [] = None"
| "find_tool_use T (ToolUseBlock i n a # bs) = (if i = T then Some n else find_tool_use T bs)"
| "find_tool_use T (b # bs) = find_tool_use T bs"

text \<open>
  The outer loop, over the messages from the last to the first, with the variable
  \<^verbatim>\<open>functionName\<close>: it stops as soon as \<^verbatim>\<open>functionName !== block.tool_use_id\<close>.
\<close>

fun search_backwards :: "string \<Rightarrow> message list \<Rightarrow> string \<Rightarrow> string" where
  "search_backwards T [] functionName = functionName"
| "search_backwards T (prevMsg # earlier) functionName =
     (let functionName' =
            (case msg_content prevMsg of
               BlockContent bs \<Rightarrow>
                 (case find_tool_use T bs of Some n \<Rightarrow> n | None \<Rightarrow> functionName)
             | _ \<Rightarrow> functionName)
      in if functionName' \<noteq> T then functionName' else search_backwards T earlier functionName')"

text \<open>
  \<^verbatim>\<open>let functionName = block.tool_use_id\<close>, then the search from
  \<^verbatim>\<open>claudeRequest.messages.length - 1\<close> down to \<open>0\<close>.
\<close>

definition function_name :: "message list \<Rightarrow> string \<Rightarrow> string" where
  "function_name msgs T = search_backwards T (rev msgs) T"

definition string_of_int :: "int \<Rightarrow> string" where
  "string_of_int i =
     (if i < 0 then CHR ''-'' # string_of_nat (nat (- i)) else string_of_nat (nat i))"

text \<open>\<^verbatim>\<open>String(v)\<close>.\<close>

fun js_String :: "json \<Rightarrow> string" where
  "js_String JNull = ''null''"
| "js_String (JBool b) = (if b then ''true'' else ''false'')"
| "js_String (JNum n) = string_of_int n"
| "js_String (JStr s) = s"
| "js_String (JArr xs) = join '','' (map js_String xs)"
| "js_String (JObj es p) = ''[object Object]''"

text \<open>
  The \<^verbatim>\<open>tool_result\<close> branch. It returns the part it pushes, its console lines and the
  block as the branch leaves it. An object \<^verbatim>\<open>content\<close> is used as the response itself
  (\<^verbatim>\<open>response = block.content\<close>), so what \<^verbatim>\<open>is_error\<close> then writes into \<^verbatim>\<open>response\<close> is
  written into the block of the request, and the \<^verbatim>\<open>JSON.stringify(block.content)\<close> of the
  error message already sees \<^verbatim>\<open>error: true\<close>. \<^verbatim>\<open>JSON.stringify\<close> is the parameter
  \<open>stringify\<close>. Without a \<^verbatim>\<open>content\<close>, \<^verbatim>\<open>JSON.stringify\<close> returns \<^verbatim>\<open>undefined\<close>, and reading its
  \<^verbatim>\<open>length\<close> (or \<^verbatim>\<open>substring\<close>, under \<^verbatim>\<open>is_error\<close>) raises a \<^verbatim>\<open>TypeError\<close>.
\<close>

fun convert_tool_result ::
  "(json \<Rightarrow> string) \<Rightarrow> message list \<Rightarrow> string \<Rightarrow> json option \<Rightarrow> bool
     \<Rightarrow> js_error + (part list \<times> log_line list \<times> block)" where
  "convert_tool_result stringify msgs T None is_error = Inl TypeError"
| "convert_tool_result stringify msgs T (Some c) is_error =
     (let functionName = function_name msgs T;
          aliased = (case c of JObj es p \<Rightarrow> True | _ \<Rightarrow> False);
          (response, log1) =
            (case c of
               JStr s \<Rightarrow> (([(''result'', c)], None), [])
             | JArr xs \<Rightarrow> (([(''result'', c)], None), [])
             | JObj es p \<Rightarrow> ((es, p), [])
             | _ \<Rightarrow> (([(''result'', JStr (js_String c))], None),
                       [WarnUnexpectedContentType]));
          response1 = (if is_error then set_prop response ''error'' (JBool True) else response);
          c1 = (if aliased then JObj (fst response1) (snd response1) else c);
          error_message = (case c1 of JStr s \<Rightarrow> s | _ \<Rightarrow> stringify c1);
          response2 = (if is_error then set_prop response1 ''error_message'' (JStr error_message)
                       else response1);
          c2 = (if aliased then JObj (fst response2) (snd response2) else c);
          log2 = (if is_error then [WarnToolExecutionFailed functionName T] else []);
          log3 = (if \<not> is_error then [LogConvertedToolResult T functionName] else []);
          log4 = (if functionName = T then [WarnFunctionNameNotFound T] else [])
      in Inr ([FunctionResponsePart functionName (JObj (fst response2) (snd response2))],
              log1 @ log2 @ log3 @ log4,
              ToolResultBlock T (Some c2) is_error))"

definition empty_object :: json where
  "empty_object = JObj [] None"

text \<open>
  One block of an array content. The two branches of \<^verbatim>\<open>tool_use\<close> (MCP tool or not) push
  the same part, with \<^verbatim>\<open>args: block.input || {}\<close>.
\<close>

fun convert_block ::
  "(json \<Rightarrow> string) \<Rightarrow> message list \<Rightarrow> block
     \<Rightarrow> js_error + (part list \<times> log_line list \<times> block)" where
  "convert_block stringify msgs (TextBlock t) = Inr ([TextPart t], [], TextBlock t)"
| "convert_block stringify msgs (ImageBlock media_type d) =
     Inr ([InlineDataPart media_type d], [], ImageBlock media_type d)"
| "convert_block stringify msgs (ToolResultBlock T c is_error) =
     convert_tool_result stringify msgs T c is_error"
| "convert_block stringify msgs (ToolUseBlock i n a) =
     Inr ([FunctionCallPart n (case a of None \<Rightarrow> empty_object
                                | Some v \<Rightarrow> if truthy v then v else empty_object)],
          [], ToolUseBlock i n a)"
| "convert_block stringify msgs (OtherBlock ty) = Inr ([], [], OtherBlock ty)"

fun convert_blocks ::
  "(json \<Rightarrow> string) \<Rightarrow> message list \<Rightarrow> block list
     \<Rightarrow> js_error + (part list \<times> log_line list \<times> block list)" where
  "convert_blocks stringify msgs [] = Inr ([], [], [])"
| "convert_blocks stringify msgs (b # bs) =
     (case convert_block stringify msgs b of
        Inl e \<Rightarrow> Inl e
      | Inr (ps, ls, b') \<Rightarrow>
          (case convert_blocks stringify msgs bs of
             Inl e \<Rightarrow> Inl e
           | Inr (ps', ls', bs') \<Rightarrow> Inr (ps @ ps', ls @ ls', b' # bs')))"

text \<open>The parts of one message, its console lines and the message afterwards.\<close>

definition convert_message ::
  "(json \<Rightarrow> string) \<Rightarrow> message list \<Rightarrow> message
     \<Rightarrow> js_error + (part list \<times> log_line list \<times> message)" where
  "convert_message stringify msgs msg =
     (case msg_content msg of
        StringContent s \<Rightarrow> Inr ([TextPart s], [], msg)
      | BlockContent bs \<Rightarrow>
          (case convert_blocks stringify msgs bs of
             Inl e \<Rightarrow> Inl e
           | Inr (ps, ls, bs') \<Rightarrow> Inr (ps, ls, msg\<lparr>msg_content := BlockContent bs'\<rparr>))
      | OtherContent \<Rightarrow> Inr ([], [], msg))"

definition gemini_role :: "message \<Rightarrow> string" where
  "gemini_role msg = (if msg_role msg = ''assistant'' then ''model'' else ''user'')"

text \<open>
  The end of the loop body: the parts are pushed onto the last entry of \<^verbatim>\<open>contents\<close> when
  there is one and it has the same role, and form a new entry otherwise.
\<close>

definition push_content ::
  "gemini_content list \<Rightarrow> string \<Rightarrow> part list \<Rightarrow> gemini_content list" where
  "push_content cs r ps =
     (if cs \<noteq> [] \<and> role (last cs) = r
      then butlast cs @ [(last cs)\<lparr>parts := parts (last cs) @ ps\<rparr>]
      else cs @ [\<lparr>role = r, parts = ps\<rparr>])"

text \<open>
  The loop over the messages. The second argument is \<^verbatim>\<open>claudeRequest.messages\<close>, which
  the name search reads: it reads the type, id and name of \<^verbatim>\<open>tool_use\<close> blocks, which no
  step of the loop writes, so the list it is given is the one of the request.
\<close>

fun convert_messages ::
  "(json \<Rightarrow> string) \<Rightarrow> message list \<Rightarrow> message list \<Rightarrow> gemini_content list
     \<Rightarrow> js_error + (gemini_content list \<times> log_line list \<times> message list)" where
  "convert_messages stringify msgs [] cs = Inr (cs, [], [])"
| "convert_messages stringify msgs (msg # rest) cs =
     (case convert_message stringify msgs msg of
        Inl e \<Rightarrow> Inl e
      | Inr (ps, ls, msg') \<Rightarrow>
          (case convert_messages stringify msgs rest (push_content cs (gemini_role msg) ps) of
             Inl e \<Rightarrow> Inl e
           | Inr (cs', ls', rest') \<Rightarrow> Inr (cs', ls @ ls', msg' # rest')))"

text \<open>\<^verbatim>\<open>generationConfig.maxOutputTokens\<close>, from \<^verbatim>\<open>claudeRequest.max_tokens\<close>.\<close>

definition max_output_tokens :: "int option \<Rightarrow> int" where
  "max_output_tokens mt =
     (case mt of
        None \<Rightarrow> 4096
      | Some maxTokens \<Rightarrow>
          if maxTokens \<noteq> 0
          then (if maxTokens < 100 then 4096 else maxTokens)
          else 4096)"

fun is_function_response :: "part \<Rightarrow> bool" where
  "is_function_response (FunctionResponsePart n r) = True"
| "is_function_response p = False"

definition hasFunctionResponse :: "gemini_content list \<Rightarrow> bool" where
  "hasFunctionResponse cs = list_ex (\<lambda>c. list_ex is_function_response (parts c)) cs"

text \<open>
  One function declaration. The schema of an MCP tool is taken as it is, any other is
  sanitised, and the exception of the sanitiser is the exception of the conversion;
  \<^verbatim>\<open>parameters\<close> is set only when the schema has a key.
\<close>

definition function_declaration_of ::
  "mcp_integration option \<Rightarrow> (json \<Rightarrow> js_error + string) \<Rightarrow> tool
     \<Rightarrow> js_error + function_declaration" where
  "function_declaration_of mcp to_string t =
     (let is_mcp = (case mcp of None \<Rightarrow> False | Some m \<Rightarrow> isMcpTool m (tool_name t))
      in case (case input_schema t of
                 None \<Rightarrow> Inr empty_object
               | Some s \<Rightarrow> if truthy s
                           then (if is_mcp then Inr s else cleanJsonSchema to_string s)
                           else Inr empty_object)
         of Inl e \<Rightarrow> Inl e
          | Inr cleanedSchema \<Rightarrow>
              Inr \<lparr>fd_name = tool_name t,
                   fd_description = (case tool_description t of None \<Rightarrow> [] | Some d \<Rightarrow> d),
                   parameters = (if truthy cleanedSchema \<and> object_keys cleanedSchema \<noteq> []
                                 then Some cleanedSchema else None)\<rparr>)"

definition all_tools :: "mcp_integration option \<Rightarrow> claude_request \<Rightarrow> tool list" where
  "all_tools mcp r =
     (case mcp of None \<Rightarrow> [] | Some m \<Rightarrow> if initialized m then getClaudeTools m else [])
     @ (case tools r of None \<Rightarrow> [] | Some ts \<Rightarrow> ts)"

text \<open>\<^verbatim>\<open>claudeRequest.messages || []\<close>.\<close>

definition request_messages :: "claude_request \<Rightarrow> message list" where
  "request_messages r = (case messages r of None \<Rightarrow> [] | Some ms \<Rightarrow> ms)"

text \<open>
  \<^verbatim>\<open>claudeToGeminiRequest\<close> (the current revision, the second in \<^verbatim>\<open>src/proxy.js\<close>). It
  returns the Dialect G request, the recorded console lines and the request object as
  the call leaves it, or the exception: the one of a \<^verbatim>\<open>tool_result\<close> block, or the one of
  the schema sanitiser when the tools are converted. \<open>stringify\<close> is \<^verbatim>\<open>JSON.stringify\<close> and
  \<open>to_string\<close> the runtime's \<^verbatim>\<open>ToString\<close>.
\<close>

definition claudeToGeminiRequest ::
  "mcp_integration option \<Rightarrow> (json \<Rightarrow> string) \<Rightarrow> (json \<Rightarrow> js_error + string)
     \<Rightarrow> claude_request
     \<Rightarrow> js_error + (gemini_request \<times> log_line list \<times> claude_request)" where
  "claudeToGeminiRequest mcp stringify to_string r =
     (let msgs = request_messages r
      in case convert_messages stringify msgs msgs [] of
           Inl e \<Rightarrow> Inl e
         | Inr (cs, ls, msgs') \<Rightarrow>
             (let systemText = (case system r of None \<Rightarrow> [] | Some s \<Rightarrow> system_text s);
                  config = \<lparr>maxOutputTokens = Some (max_output_tokens (max_tokens r)),
                            gc_temperature = temperature r,
                            topP = top_p r,
                            topK = top_k r,
                            stopSequences =
                              (case stop_sequences r of
                                 None \<Rightarrow> None
                               | Some s \<Rightarrow> if truthy s then Some s else None)\<rparr>;
                  allTools = all_tools mcp r
              in case (if allTools \<noteq> [] \<and> \<not> hasFunctionResponse cs
                       then (case collect (map (function_declaration_of mcp to_string) allTools) of
                               Inl e \<Rightarrow> Inl e
                             | Inr functionDeclarations \<Rightarrow>
                                 Inr (if functionDeclarations \<noteq> []
                                      then Some functionDeclarations else None))
                       else Inr None)
                 of Inl e \<Rightarrow> Inl e
                  | Inr converted \<Rightarrow>
                      Inr (\<lparr>contents = cs,
                            safetySettings = safety_settings,
                            generationConfig = config,
                            system_instruction =
                              (if systemText \<noteq> [] then Some systemText else None),
                            gemini_tools = converted\<rparr>,
                           ls,
                           r\<lparr>messages :=
                               (case messages r of None \<Rightarrow> None | Some ms \<Rightarrow> Some msgs')\<rparr>)))"

subsection \<open>What the properties are stated with\<close>

text \<open>The parts one message contributes, and the contents of a result.\<close>

definition message_parts :: "(json \<Rightarrow> string) \<Rightarrow> message list \<Rightarrow> message \<Rightarrow> part list" where
  "message_parts stringify msgs msg =
     (case convert_message stringify msgs msg of Inl e \<Rightarrow> [] | Inr (ps, ls, msg') \<Rightarrow> ps)"

definition translated_contents ::
  "js_error + (gemini_request \<times> log_line list \<times> claude_request) \<Rightarrow> gemini_content list" where
  "translated_contents res = (case res of Inl e \<Rightarrow> [] | Inr (g, ls, r') \<Rightarrow> contents g)"

text \<open>
  Merging as the specification words it: consecutive turns of the same role become one
  turn whose parts are concatenated in order.
\<close>

fun merge_runs :: "(string \<times> part list) list \<Rightarrow> gemini_content list" where
  "merge_runs [] = []"
| "merge_runs [(r, ps)] = [\<lparr>role = r, parts = ps\<rparr>]"
| "merge_runs ((r, ps) # (r', ps') # rest) =
     (if r = r' then merge_runs ((r, ps @ ps') # rest)
      else \<lparr>role = r, parts = ps\<rparr> # merge_runs ((r', ps') # rest))"

text \<open>
  The names of the function responses among some parts, the ids of the \<^verbatim>\<open>tool_result\<close>
  blocks of a request, both in order, and the ids of the not-found warnings.
\<close>

fun function_response_names :: "part list \<Rightarrow> string list" where
  "function_response_names [] = []"
| "function_response_names (FunctionResponsePart n r # ps) = n # function_response_names ps"
| "function_response_names (p # ps) = function_response_names ps"

fun block_tool_result_ids :: "block list \<Rightarrow> string list" where
  "block_tool_result_ids [] = []"
| "block_tool_result_ids (ToolResultBlock T c e # bs) = T # block_tool_result_ids bs"
| "block_tool_result_ids (b # bs) = block_tool_result_ids bs"

definition message_blocks :: "message \<Rightarrow> block list" where
  "message_blocks msg = (case msg_content msg of BlockContent bs \<Rightarrow> bs | _ \<Rightarrow> [])"

definition tool_result_ids :: "message list \<Rightarrow> string list" where
  "tool_result_ids msgs = concat (map (\<lambda>m. block_tool_result_ids (message_blocks m)) msgs)"

fun not_found_ids :: "log_line list \<Rightarrow> string list" where
  "not_found_ids [] = []"
| "not_found_ids (WarnFunctionNameNotFound T # ls) = T # not_found_ids ls"
| "not_found_ids (l # ls) = not_found_ids ls"

text \<open>The name of the first \<^verbatim>\<open>tool_use\<close> block with id \<open>T\<close> in a message, if it has one.\<close>

definition tool_use_in :: "string \<Rightarrow> message \<Rightarrow> string option" where
  "tool_use_in T msg =
     (case msg_content msg of BlockContent bs \<Rightarrow> find_tool_use T bs | _ \<Rightarrow> None)"

text \<open>
  Name resolution as the specification words it: every \<^verbatim>\<open>tool_result\<close> takes the name of
  the most recent \<^verbatim>\<open>tool_use\<close> block before it whose id is its \<^verbatim>\<open>tool_use_id\<close>, and the raw
  id when there is none. \<open>seen\<close> holds the \<^verbatim>\<open>tool_use\<close> blocks met so far, the latest first.
\<close>

fun spec_names :: "(string \<times> string) list \<Rightarrow> block list \<Rightarrow> string list" where
  "spec_names seen [] = []"
| "spec_names seen (ToolUseBlock i n a # bs) = spec_names ((i, n) # seen) bs"
| "spec_names seen (ToolResultBlock T c e # bs) =
     (case map_of seen T of Some n \<Rightarrow> n | None \<Rightarrow> T) # spec_names seen bs"
| "spec_names seen (b # bs) = spec_names seen bs"

definition spec_function_names :: "message list \<Rightarrow> string list" where
  "spec_function_names msgs = spec_names [] (concat (map message_blocks msgs))"

text \<open>
  Tool turns as the dialect means them: the ids of the \<^verbatim>\<open>tool_use\<close> blocks of the request
  are distinct, and no \<^verbatim>\<open>tool_use\<close> block comes after a \<^verbatim>\<open>tool_result\<close> that carries its id.
\<close>

fun tool_uses :: "block list \<Rightarrow> (string \<times> string) list" where
  "tool_uses [] = []"
| "tool_uses (ToolUseBlock i n a # bs) = (i, n) # tool_uses bs"
| "tool_uses (b # bs) = tool_uses bs"

fun results_follow_uses :: "block list \<Rightarrow> bool" where
  "results_follow_uses [] = True"
| "results_follow_uses (ToolResultBlock T c e # bs) =
     (T \<notin> fst ` set (tool_uses bs) \<and> results_follow_uses bs)"
| "results_follow_uses (b # bs) = results_follow_uses bs"

definition all_blocks :: "message list \<Rightarrow> block list" where
  "all_blocks msgs = concat (map message_blocks msgs)"

definition well_formed_tool_turns :: "message list \<Rightarrow> bool" where
  "well_formed_tool_turns msgs =
     (distinct (map fst (tool_uses (all_blocks msgs))) \<and> results_follow_uses (all_blocks msgs))"

text \<open>
  The blocks into whose \<^verbatim>\<open>content\<close> the \<^verbatim>\<open>tool_result\<close> branch writes: \<^verbatim>\<open>is_error\<close> is set and
  the content is a JSON object.
\<close>

fun writes_into_content :: "block \<Rightarrow> bool" where
  "writes_into_content (ToolResultBlock T (Some (JObj es p)) True) = True"
| "writes_into_content b = False"

subsection \<open>Example requests\<close>

text \<open>A stand-in for \<^verbatim>\<open>JSON.stringify\<close> where an example needs a closed term.\<close>

definition stringify_stub :: "json \<Rightarrow> string" where
  "stringify_stub j = ''{}''"

definition base_request :: claude_request where
  "base_request =
     \<lparr>system = None, messages = None, max_tokens = None, temperature = None, top_p = None,
      top_k = None, stop_sequences = None, tools = None, tool_choice = None\<rparr>"

text \<open>Scenario S2 of the specification.\<close>

definition S2_request :: claude_request where
  "S2_request = base_request\<lparr>messages := Some
     [\<lparr>msg_role = ''user'', msg_content = StringContent ''a''\<rparr>,
      \<lparr>msg_role = ''user'', msg_content = StringContent ''b''\<rparr>,
      \<lparr>msg_role = ''assistant'', msg_content = StringContent ''c''\<rparr>]\<rparr>"

text \<open>The second turn of scenario S3.\<close>

definition get_weather_tool :: tool where
  "get_weather_tool =
     \<lparr>tool_name = ''get_weather'', tool_description = Some ''Weather of a city'',
      input_schema = Some (JObj [(''type'', JStr ''object''),
                                 (''properties'',
                                    JObj [(''city'', JObj [(''type'', JStr ''string'')] None)]
                                      None)] None)\<rparr>"

definition S3_messages :: "message list" where
  "S3_messages =
     [\<lparr>msg_role = ''user'', msg_content = StringContent ''get weather for Paris''\<rparr>,
      \<lparr>msg_role = ''assistant'', msg_content = BlockContent
          [ToolUseBlock ''toolu_1'' ''get_weather''
             (Some (JObj [(''city'', JStr ''Paris'')] None))]\<rparr>,
      \<lparr>msg_role = ''user'', msg_content = BlockContent
          [ToolResultBlock ''toolu_1'' (Some (JStr ''sunny'')) False]\<rparr>]"

definition S3_request :: claude_request where
  "S3_request = base_request\<lparr>messages := Some S3_messages, tools := Some [get_weather_tool]\<rparr>"

definition small_max_tokens_request :: claude_request where
  "small_max_tokens_request = S2_request\<lparr>max_tokens := Some 1\<rparr>"

text \<open>A request in which a later \<^verbatim>\<open>tool_use\<close> block carries the id of an earlier one.\<close>

definition reused_id_request :: claude_request where
  "reused_id_request = base_request\<lparr>messages := Some
     [\<lparr>msg_role = ''assistant'', msg_content = BlockContent [ToolUseBlock ''t1'' ''a'' None]\<rparr>,
      \<lparr>msg_role = ''user'', msg_content = BlockContent
          [ToolResultBlock ''t1'' (Some (JStr ''x'')) False]\<rparr>,
      \<lparr>msg_role = ''assistant'', msg_content = BlockContent [ToolUseBlock ''t1'' ''b'' None]\<rparr>]\<rparr>"

text \<open>
  A first turn with one tool, whose schema is that of scenario S1, and the same turn with
  a tool whose schema the sanitiser cannot log.
\<close>

definition search_tool_request :: claude_request where
  "search_tool_request = base_request\<lparr>messages := Some
       [\<lparr>msg_role = ''user'', msg_content = StringContent ''a''\<rparr>],
     tools := Some [\<lparr>tool_name = ''search'', tool_description = None,
                       input_schema = Some S1_schema\<rparr>]\<rparr>"

definition null_proto_tool_request :: claude_request where
  "null_proto_tool_request = base_request\<lparr>messages := Some
       [\<lparr>msg_role = ''user'', msg_content = StringContent ''a''\<rparr>],
     tools := Some [\<lparr>tool_name = ''search'', tool_description = None,
                       input_schema = Some null_proto_required\<rparr>]\<rparr>"

text \<open>A failed tool call whose result is a JSON object.\<close>

definition error_result_request :: claude_request where
  "error_result_request = base_request\<lparr>messages := Some
     [\<lparr>msg_role = ''user'', msg_content = BlockContent
         [ToolResultBlock ''toolu_1'' (Some (JObj [(''code'', JNum 1)] None)) True]\<rparr>]\<rparr>"

section \<open>The response translators\<close>

subsection \<open>Dialect G replies\<close>

text \<open>
  A reply or a streamed chunk: \<^verbatim>\<open>candidates\<close> may be absent or empty, the parts of a
  candidate are \<open>None\<close> when \<^verbatim>\<open>candidate.content?.parts\<close> is \<^verbatim>\<open>undefined\<close>, and a part has a
  \<^verbatim>\<open>text\<close>, a \<^verbatim>\<open>functionCall\<close>, both or neither.
\<close>

record function_call =
  fc_name :: string
  fc_args :: "json option"

record gemini_part =
  part_text :: "string option"
  functionCall :: "function_call option"

record candidate =
  content_parts :: "gemini_part list option"
  finishReason :: "string option"

record gemini_response =
  candidates :: "candidate list option"

text \<open>\<^verbatim>\<open>geminiResponse.candidates?.[0]\<close> and \<^verbatim>\<open>candidate.content?.parts || []\<close>.\<close>

definition first_candidate :: "gemini_response \<Rightarrow> candidate option" where
  "first_candidate resp =
     (case candidates resp of None \<Rightarrow> None | Some [] \<Rightarrow> None | Some (c # cs) \<Rightarrow> Some c)"

definition candidate_parts :: "candidate \<Rightarrow> gemini_part list" where
  "candidate_parts c = (case content_parts c of None \<Rightarrow> [] | Some ps \<Rightarrow> ps)"

text \<open>\<^verbatim>\<open>if (part.text)\<close>: a text that is not empty.\<close>

definition has_text :: "gemini_part \<Rightarrow> bool" where
  "has_text p = (case part_text p of None \<Rightarrow> False | Some t \<Rightarrow> t \<noteq> [])"

text \<open>\<^verbatim>\<open>part.functionCall.args || {}\<close>.\<close>

definition args_or_empty :: "function_call \<Rightarrow> json" where
  "args_or_empty fc =
     (case fc_args fc of None \<Rightarrow> empty_object | Some a \<Rightarrow> if truthy a then a else empty_object)"

subsection \<open>The synchronous converter\<close>

text \<open>
  The content blocks of the Dialect A message: a text block (with \<^verbatim>\<open>citations: null\<close>) or a
  \<^verbatim>\<open>tool_use\<close> block with id, name and input.
\<close>

datatype content_block =
    TextContent string
  | ToolUseContent string string json

record claude_message =
  content :: "content_block list"

datatype response_error = NoCandidates

text \<open>
  The block of one part. \<^verbatim>\<open>Math.random().toString(36).substring(2, 15)\<close> is the parameter
  \<open>random_id\<close>, asked for the part at index \<open>k\<close>.
\<close>

definition response_block :: "(nat \<Rightarrow> string) \<Rightarrow> nat \<Rightarrow> gemini_part \<Rightarrow> content_block list" where
  "response_block random_id k p =
     (if has_text p then [TextContent (the (part_text p))]
      else (case functionCall p of
              Some fc \<Rightarrow>
                [ToolUseContent (''toolu_'' @ random_id k) (fc_name fc) (args_or_empty fc)]
            | None \<Rightarrow> []))"

text \<open>
  \<^verbatim>\<open>geminiToClaudeResponse\<close>: the message, or the error it throws without a candidate. The
  id, model, stop reason and usage of the message do not bear on its content and are left
  out.
\<close>

definition geminiToClaudeResponse ::
  "(nat \<Rightarrow> string) \<Rightarrow> gemini_response \<Rightarrow> response_error + claude_message" where
  "geminiToClaudeResponse random_id resp =
     (case first_candidate resp of
        None \<Rightarrow> Inl NoCandidates
      | Some c \<Rightarrow>
          Inr \<lparr>content = concat (map (\<lambda>(k, p). response_block random_id k p)
                                      (enumerate 0 (candidate_parts c)))\<rparr>)"

subsection \<open>The streaming converter\<close>

datatype delta = TextDelta string | InputJsonDelta string

datatype block_start = TextStart | ToolUseStart string string

datatype event =
    MessageStart
  | ContentBlockStart nat block_start
  | ContentBlockDelta nat delta
  | ContentBlockStop nat

text \<open>The fields of a \<^verbatim>\<open>ClaudeStreamConverter\<close> that change.\<close>

record converter =
  index :: nat
  lastData :: "gemini_response option"

text \<open>The events of one part, in the \<^verbatim>\<open>forEach\<close> of \<^verbatim>\<open>convertChunk\<close>.\<close>

definition part_events ::
  "(nat \<Rightarrow> string) \<Rightarrow> (json \<Rightarrow> string) \<Rightarrow> converter \<Rightarrow> nat \<Rightarrow> gemini_part
     \<Rightarrow> event list" where
  "part_events random_id stringify this partIndex p =
     (if has_text p
      then (if index this = 0 \<and> partIndex = 0
            then [ContentBlockStart partIndex TextStart] else [])
           @ [ContentBlockDelta partIndex (TextDelta (the (part_text p)))]
      else (case functionCall p of
              Some fc \<Rightarrow>
                [ContentBlockStart partIndex
                   (ToolUseStart (''toolu_'' @ random_id partIndex) (fc_name fc)),
                 ContentBlockDelta partIndex (InputJsonDelta (stringify (args_or_empty fc))),
                 ContentBlockStop partIndex]
            | None \<Rightarrow> []))"

text \<open>
  \<^verbatim>\<open>convertChunk\<close>: the events and the converter afterwards. Without a candidate it
  returns before \<^verbatim>\<open>this.index++\<close>.
\<close>

definition convertChunk ::
  "(nat \<Rightarrow> string) \<Rightarrow> (json \<Rightarrow> string) \<Rightarrow> converter \<Rightarrow> gemini_response
     \<Rightarrow> event list \<times> converter" where
  "convertChunk random_id stringify this geminiData =
     (case first_candidate geminiData of
        None \<Rightarrow> ([], this)
      | Some c \<Rightarrow>
          ((if index this = 0 then [MessageStart] else [])
           @ concat (map (\<lambda>(k, p). part_events random_id stringify this k p)
                         (enumerate 0 (candidate_parts c))),
           this\<lparr>index := index this + 1, lastData := Some geminiData\<rparr>))"

text \<open>\<^verbatim>\<open>convertChunk\<close> over the chunks in order, as the server calls it.\<close>

fun convert_chunks ::
  "(nat \<Rightarrow> string) \<Rightarrow> (json \<Rightarrow> string) \<Rightarrow> converter \<Rightarrow> gemini_response list
     \<Rightarrow> event list" where
  "convert_chunks random_id stringify this [] = []"
| "convert_chunks random_id stringify this (d # ds) =
     (case convertChunk random_id stringify this d of
        (events, this') \<Rightarrow> events @ convert_chunks random_id stringify this' ds)"

subsection \<open>What the comparison is stated with\<close>

text \<open>
  The texts of the \<^verbatim>\<open>text_delta\<close> events of a stream, the texts of the text blocks of a
  message, the texts the synchronous converter gives for one reply (none when it throws)
  and the parts of the first candidate of a reply.
\<close>

fun text_deltas :: "event list \<Rightarrow> string list" where
  "text_deltas [] = []"
| "text_deltas (ContentBlockDelta i (TextDelta t) # es) = t # text_deltas es"
| "text_deltas (e # es) = text_deltas es"

fun text_blocks :: "content_block list \<Rightarrow> string list" where
  "text_blocks [] = []"
| "text_blocks (TextContent t # bs) = t # text_blocks bs"
| "text_blocks (b # bs) = text_blocks bs"

definition sync_texts :: "(nat \<Rightarrow> string) \<Rightarrow> gemini_response \<Rightarrow> string list" where
  "sync_texts random_id resp =
     (case geminiToClaudeResponse random_id resp of
        Inl e \<Rightarrow> []
      | Inr message \<Rightarrow> text_blocks (content message))"

definition response_parts :: "gemini_response \<Rightarrow> gemini_part list" where
  "response_parts resp =
     (case first_candidate resp of None \<Rightarrow> [] | Some c \<Rightarrow> candidate_parts c)"

definition part_texts :: "gemini_part list \<Rightarrow> string list" where
  "part_texts ps = map (\<lambda>p. the (part_text p)) (filter has_text ps)"

subsection \<open>Example replies\<close>

text \<open>Scenario S5: three chunks, and one reply that carries the parts of all three.\<close>

definition text_chunk :: "string \<Rightarrow> gemini_response" where
  "text_chunk t =
     \<lparr>candidates = Some [\<lparr>content_parts = Some [\<lparr>part_text = Some t, functionCall = None\<rparr>],
                           finishReason = None\<rparr>]\<rparr>"

definition S5_chunks :: "gemini_response list" where
  "S5_chunks = [text_chunk ''Hel'', text_chunk ''lo'', text_chunk '' world'']"

definition S5_reply :: gemini_response where
  "S5_reply =
     \<lparr>candidates = Some [\<lparr>content_parts = Some
          [\<lparr>part_text = Some ''Hel'', functionCall = None\<rparr>,
           \<lparr>part_text = Some ''lo'', functionCall = None\<rparr>,
           \<lparr>part_text = Some '' world'', functionCall = None\<rparr>],
        finishReason = Some ''STOP''\<rparr>]\<rparr>"

definition random_id_stub :: "nat \<Rightarrow> string" where
  "random_id_stub k = ''abc''"

definition new_converter :: converter where
  "new_converter = \<lparr>index = 0, lastData = None\<rparr>"

section \<open>The stream parser\<close>

text \<open>
  \<^verbatim>\<open>GeminiStreamParser.parse\<close> runs the regular expression
  \<^verbatim>\<open>/^data: (.*)(?:\n\n|\r\r|\r\n\r\n)/gm\<close> over its buffer. The buffer is a list of
  characters; of the line terminators of JavaScript, line feed and carriage return are
  characters of this type (the separators U+2028 and U+2029 are not).
\<close>

definition is_line_terminator :: "char \<Rightarrow> bool" where
  "is_line_terminator c = (c = CHR 0x0A \<or> c = CHR 0x0D)"

text \<open>The alternation at the end of the pattern: the length of the alternative that matches.\<close>

definition frame_end :: "string \<Rightarrow> nat option" where
  "frame_end s =
     (if take 2 s = [CHR 0x0A, CHR 0x0A] then Some 2
      else if take 2 s = [CHR 0x0D, CHR 0x0D] then Some 2
      else if take 4 s = [CHR 0x0D, CHR 0x0A, CHR 0x0D, CHR 0x0A] then Some 4
      else None)"

text \<open>
  The pattern after \<^verbatim>\<open>^\<close>, matched at the head of \<open>s\<close>: the group and the length of the
  match. \<^verbatim>\<open>.*\<close> takes every character up to the first line terminator; giving one back
  cannot help, since each alternative starts with a line terminator.
\<close>

definition match_here :: "string \<Rightarrow> (string \<times> nat) option" where
  "match_here s =
     (if take 6 s = ''data: ''
      then (let body = takeWhile (\<lambda>c. \<not> is_line_terminator c) (drop 6 s);
                after = dropWhile (\<lambda>c. \<not> is_line_terminator c) (drop 6 s)
            in case frame_end after of
                 Some n \<Rightarrow> Some (body, 6 + length body + n)
               | None \<Rightarrow> None)
      else None)"

text \<open>
  The search for the first match at or after position \<open>i\<close>, where \<open>s\<close> is the buffer from
  \<open>i\<close> on and \<open>line_start\<close> says whether \<^verbatim>\<open>^\<close> matches at \<open>i\<close> (under the flag \<^verbatim>\<open>m\<close>: at the
  start of the buffer and after a line terminator). The result is the index of the match,
  the group and the length of the match.
\<close>

fun scan_from :: "bool \<Rightarrow> nat \<Rightarrow> string \<Rightarrow> (nat \<times> string \<times> nat) option" where
  "scan_from line_start i s =
     (case (if line_start then match_here s else None) of
        Some (body, n) \<Rightarrow> Some (i, body, n)
      | None \<Rightarrow>
          (case s of
             [] \<Rightarrow> None
           | c # cs \<Rightarrow> scan_from (is_line_terminator c) (Suc i) cs))"

declare scan_from.simps [simp del]

text \<open>\<^verbatim>\<open>regex.exec(buffer)\<close> under the flag \<^verbatim>\<open>g\<close>, with the \<^verbatim>\<open>lastIndex\<close> the regex holds.\<close>

definition regex_exec :: "string \<Rightarrow> nat \<Rightarrow> (nat \<times> string \<times> nat) option" where
  "regex_exec buffer lastIndex =
     (if lastIndex > length buffer then None
      else scan_from (lastIndex = 0 \<or> is_line_terminator (buffer ! (lastIndex - 1)))
             lastIndex (drop lastIndex buffer))"

text \<open>A match is not empty, starts at or after \<open>lastIndex\<close> and ends inside the buffer.\<close>

lemma take_eq_imp_le: "take k s = xs \<Longrightarrow> length xs = k \<Longrightarrow> k \<le> length s"
  by (metis length_take min.cobounded1)

lemma frame_end_bounds: "frame_end s = Some k \<Longrightarrow> 0 < k \<and> k \<le> length s"
  by (auto simp: frame_end_def split: if_splits dest: take_eq_imp_le)

lemma match_here_bounds:
  assumes "match_here s = Some (body, n)"
  shows "0 < n \<and> n \<le> length s"
proof -
  let ?rest = "drop 6 s"
  let ?body = "takeWhile (\<lambda>c. \<not> is_line_terminator c) ?rest"
  let ?after = "dropWhile (\<lambda>c. \<not> is_line_terminator c) ?rest"
  from assms have p: "take 6 s = ''data: ''"
    by (auto simp: match_here_def split: if_splits)
  have l6: "6 \<le> length s"
    by (rule take_eq_imp_le [OF p]) simp
  from assms p obtain k where k: "frame_end ?after = Some k" and n: "n = 6 + length ?body + k"
    by (auto simp: match_here_def Let_def split: option.splits)
  from frame_end_bounds [OF k] have "k \<le> length ?after" by simp
  moreover have "length ?body + length ?after = length ?rest"
    by (metis length_append takeWhile_dropWhile_id)
  ultimately show ?thesis using n l6 by simp
qed

lemma scan_from_bounds:
  "scan_from b i s = Some (j, body, n) \<Longrightarrow> i \<le> j \<and> 0 < n \<and> j + n \<le> i + length s"
proof (induction s arbitrary: b i)
  case Nil
  then have "match_here [] = Some (body, n)"
    by (subst (asm) scan_from.simps) (auto split: option.splits if_splits)
  from match_here_bounds [OF this] show ?case by auto
next
  case (Cons c cs)
  show ?case
  proof (cases "if b then match_here (c # cs) else None")
    case None
    with Cons.prems have "scan_from (is_line_terminator c) (Suc i) cs = Some (j, body, n)"
      by (subst (asm) scan_from.simps) simp
    from Cons.IH [OF this] show ?thesis by simp
  next
    case (Some m)
    with Cons.prems have m: "m = (body, n)" and j: "j = i"
      by (subst (asm) scan_from.simps, auto split: prod.splits)+
    from Some m have "match_here (c # cs) = Some (body, n)" by (auto split: if_splits)
    from match_here_bounds [OF this] j show ?thesis by simp
  qed
qed

lemma regex_exec_bounds:
  assumes "regex_exec buffer lastIndex = Some (j, body, n)"
  shows "lastIndex \<le> j \<and> 0 < n \<and> j + n \<le> length buffer"
proof -
  from assms have le: "lastIndex \<le> length buffer"
    by (simp add: regex_exec_def split: if_splits)
  with assms obtain b where "scan_from b lastIndex (drop lastIndex buffer) = Some (j, body, n)"
    by (simp add: regex_exec_def)
  from scan_from_bounds [OF this] le show ?thesis by simp
qed

text \<open>
  The \<^verbatim>\<open>while\<close> loop of \<^verbatim>\<open>parse\<close>, with \<^verbatim>\<open>this.buffer\<close>, the \<^verbatim>\<open>lastIndex\<close> of the regex and the
  events so far. \<^verbatim>\<open>JSON.parse\<close> is the parameter \<open>json_parse\<close> (\<open>None\<close> when it throws). After
  a frame that parses, the buffer loses its first \<^verbatim>\<open>match[0].length\<close> characters
  (\<^verbatim>\<open>substring\<close>), and the regex keeps the \<^verbatim>\<open>lastIndex\<close> it set at the end of the match in
  the buffer as it was before; after one that does not parse, the buffer stays.
\<close>

function parse_loop ::
  "(string \<Rightarrow> 'a option) \<Rightarrow> string \<Rightarrow> nat \<Rightarrow> 'a list \<Rightarrow> 'a list \<times> string" where
  "parse_loop json_parse buffer lastIndex events =
     (case regex_exec buffer lastIndex of
        None \<Rightarrow> (events, buffer)
      | Some (j, body, n) \<Rightarrow>
          (case json_parse body of
             Some d \<Rightarrow> parse_loop json_parse (drop n buffer) (j + n) (events @ [d])
           | None \<Rightarrow> parse_loop json_parse buffer (j + n) events))"
  by pat_completeness auto
termination
proof (relation "measure (\<lambda>(json_parse, buffer, lastIndex, events).
                            Suc (length buffer) - lastIndex)")
  show "wf (measure (\<lambda>(json_parse, buffer, lastIndex, events).
                       Suc (length buffer) - lastIndex))"
    by simp
next
  fix json_parse :: "string \<Rightarrow> 'a option" and buffer lastIndex and events :: "'a list"
    and x2 j y body n d
  assume "regex_exec buffer lastIndex = Some x2" "(j, y) = x2" "(body, n) = y"
  then have "regex_exec buffer lastIndex = Some (j, body, n)" by simp
  from regex_exec_bounds [OF this]
  show "((json_parse, drop n buffer, j + n, events @ [d]), json_parse, buffer, lastIndex, events)
          \<in> measure (\<lambda>(json_parse, buffer, lastIndex, events).
                        Suc (length buffer) - lastIndex)"
    by auto
next
  fix json_parse :: "string \<Rightarrow> 'a option" and buffer lastIndex and events :: "'a list"
    and x2 j y body n
  assume "regex_exec buffer lastIndex = Some x2" "(j, y) = x2" "(body, n) = y"
  then have "regex_exec buffer lastIndex = Some (j, body, n)" by simp
  from regex_exec_bounds [OF this]
  show "((json_parse, buffer, j + n, events), json_parse, buffer, lastIndex, events)
          \<in> measure (\<lambda>(json_parse, buffer, lastIndex, events).
                        Suc (length buffer) - lastIndex)"
    by auto
qed

declare parse_loop.simps [simp del]

text \<open>
  \<^verbatim>\<open>parse(chunk)\<close>: the chunk is appended to the buffer and the loop runs with a new regex.
  The result is the events and the buffer the parser keeps.
\<close>

definition parse ::
  "(string \<Rightarrow> 'a option) \<Rightarrow> string \<Rightarrow> string \<Rightarrow> 'a list \<times> string" where
  "parse json_parse buffer chunk = parse_loop json_parse (buffer @ chunk) 0 []"

text \<open>The events of successive calls of \<^verbatim>\<open>parse\<close> on one parser, concatenated.\<close>

fun parse_chunks :: "(string \<Rightarrow> 'a option) \<Rightarrow> string \<Rightarrow> string list \<Rightarrow> 'a list" where
  "parse_chunks json_parse buffer [] = []"
| "parse_chunks json_parse buffer (chunk # chunks) =
     (case parse json_parse buffer chunk of
        (events, buffer') \<Rightarrow> events @ parse_chunks json_parse buffer' chunks)"

text \<open>
  A well-formed frame, and what \<^verbatim>\<open>JSON.parse\<close> returns on the payloads \<^verbatim>\<open>1\<close> and \<^verbatim>\<open>2\<close> of the
  example below.
\<close>

definition frame :: "string \<Rightarrow> string" where
  "frame payload = ''data: '' @ payload @ [CHR 0x0A, CHR 0x0A]"

definition digit_payload :: "string \<Rightarrow> json option" where
  "digit_payload s =
     (if s = ''1'' then Some (JNum 1) else if s = ''2'' then Some (JNum 2) else None)"

section \<open>Properties of the schema sanitiser\<close>

lemma rejected_keywords_unsupported: "set rejected_keywords = set unsupportedFields"
  unfolding rejected_keywords_def unsupportedFields_def by auto

lemma required_not_rejected: "''required'' \<notin> set rejected_keywords"
  unfolding rejected_keywords_def by simp

lemma list_all_update:
  "list_all Q es \<Longrightarrow> Q (k, v) \<Longrightarrow> list_all Q (AList.update k v es)"
  by (induction es) auto

lemma list_all_delete:
  "list_all Q es \<Longrightarrow> list_all Q (AList.delete k es)"
  by (induction es) auto

lemma rejected_free_set_prop:
  assumes "rejected_free (JObj (fst c) (snd c))" and "k \<notin> set rejected_keywords"
    and "rejected_free v"
  shows "rejected_free (JObj (fst (set_prop c k v)) (snd (set_prop c k v)))"
  using assms by (cases c; cases v) (auto intro: list_all_update)

lemma rejected_free_delete_prop:
  "rejected_free (JObj (fst c) (snd c)) \<Longrightarrow>
   rejected_free (JObj (fst (delete_prop c k)) (snd (delete_prop c k)))"
  by (cases c) (auto intro: list_all_delete)

lemma rejected_free_get_prop:
  "rejected_free o' \<Longrightarrow> get_prop o' k = Some v \<Longrightarrow> rejected_free v"
proof (induction o' k rule: get_prop.induct)
  case (1 es p k)
  show ?case
  proof (cases "map_of es k")
    case None
    with 1 show ?thesis by (auto split: option.splits)
  next
    case (Some w)
    then have "(k, w) \<in> set es" by (rule map_of_SomeD)
    with 1 Some show ?thesis by (auto simp: list_all_iff)
  qed
qed simp_all

text \<open>The three ways the block after the loop can end when it does not throw.\<close>

lemma required_filtered_cases:
  obtains (unchanged) "required_filtered c = c"
      "\<And>rs props. get_prop (JObj (fst c) (snd c)) ''required'' = Some (JArr rs) \<Longrightarrow>
         get_prop (JObj (fst c) (snd c)) ''properties'' = Some props \<Longrightarrow> truthy props \<Longrightarrow> False"
  | (filtered) rs props where
      "get_prop (JObj (fst c) (snd c)) ''required'' = Some (JArr rs)"
      "get_prop (JObj (fst c) (snd c)) ''properties'' = Some props"
      "truthy props"
      "filter (array_includes (object_keys props)) rs \<noteq> []"
      "required_filtered c =
         set_prop c ''required'' (JArr (filter (array_includes (object_keys props)) rs))"
  | (emptied) rs props where
      "get_prop (JObj (fst c) (snd c)) ''required'' = Some (JArr rs)"
      "get_prop (JObj (fst c) (snd c)) ''properties'' = Some props"
      "truthy props"
      "filter (array_includes (object_keys props)) rs = []"
      "required_filtered c = delete_prop (set_prop c ''required'' (JArr [])) ''required''"
proof (cases "get_prop (JObj (fst c) (snd c)) ''required''")
  case None
  then have "required_filtered c = c" by (simp add: required_filtered_def)
  then show ?thesis using None by (intro unchanged) simp_all
next
  case (Some r)
  note req = this
  show ?thesis
  proof (cases "\<exists>rs. r = JArr rs")
    case False
    with req have "required_filtered c = c"
      by (cases r) (simp_all add: required_filtered_def)
    then show ?thesis using req False by (intro unchanged) auto
  next
    case True
    then obtain rs where r: "r = JArr rs" by blast
    show ?thesis
    proof (cases "get_prop (JObj (fst c) (snd c)) ''properties''")
      case None
      with req r have "required_filtered c = c" by (simp add: required_filtered_def)
      then show ?thesis using None by (intro unchanged) simp_all
    next
      case (Some props)
      show ?thesis
      proof (cases "truthy props")
        case False
        with req r Some have "required_filtered c = c" by (simp add: required_filtered_def)
        then show ?thesis using Some False by (intro unchanged) simp_all
      next
        case True
        show ?thesis
        proof (cases "filter (array_includes (object_keys props)) rs = []")
          case True
          with req r Some \<open>truthy props\<close>
          have "required_filtered c = delete_prop (set_prop c ''required'' (JArr [])) ''required''"
            by (simp add: required_filtered_def del: set_prop.simps delete_prop.simps)
          with req r Some \<open>truthy props\<close> True show ?thesis by (intro emptied) simp_all
        next
          case False
          with req r Some \<open>truthy props\<close>
          have "required_filtered c =
                  set_prop c ''required'' (JArr (filter (array_includes (object_keys props)) rs))"
            by (simp add: required_filtered_def Let_def del: set_prop.simps delete_prop.simps)
          with req r Some \<open>truthy props\<close> False show ?thesis by (intro filtered) simp_all
        qed
      qed
    qed
  qed
qed

lemma rejected_free_required_filtered:
  assumes "rejected_free (JObj (fst c) (snd c))"
  shows "rejected_free (JObj (fst (required_filtered c)) (snd (required_filtered c)))"
proof (cases c rule: required_filtered_cases)
  case unchanged
  with assms show ?thesis by simp
next
  case (filtered rs props)
  have "rejected_free (JArr rs)"
    by (rule rejected_free_get_prop [OF assms filtered(1)])
  then have "rejected_free (JArr (filter (array_includes (object_keys props)) rs))"
    by (simp add: list_all_iff)
  with assms show ?thesis
    unfolding filtered(5) by (intro rejected_free_set_prop required_not_rejected)
next
  case (emptied rs props)
  have "rejected_free (JArr [])" by simp
  with assms show ?thesis
    unfolding emptied(5)
    by (intro rejected_free_delete_prop rejected_free_set_prop required_not_rejected)
qed

lemma rejected_free_foldl:
  assumes "rejected_free (JObj (fst c) (snd c))"
    and "\<And>kv. kv \<in> set es \<Longrightarrow> fst kv \<notin> set unsupportedFields \<Longrightarrow> rejected_free (f kv)"
  shows "rejected_free (JObj
           (fst (foldl (\<lambda>cleaned kv. if fst kv \<in> set unsupportedFields then cleaned
                                      else set_prop cleaned (fst kv) (f kv)) c es))
           (snd (foldl (\<lambda>cleaned kv. if fst kv \<in> set unsupportedFields then cleaned
                                      else set_prop cleaned (fst kv) (f kv)) c es)))"
  using assms
proof (induction es arbitrary: c)
  case Nil
  then show ?case by simp
next
  case (Cons kv es)
  show ?case
  proof (cases "fst kv \<in> set unsupportedFields")
    case True
    with Cons show ?thesis by simp
  next
    case False
    then have "rejected_free (JObj (fst (set_prop c (fst kv) (f kv)))
                                   (snd (set_prop c (fst kv) (f kv))))"
      using Cons.prems
      by (intro rejected_free_set_prop) (auto simp: rejected_keywords_unsupported)
    with Cons False show ?thesis by simp
  qed
qed

text \<open>The run of results of \<open>collect\<close>.\<close>

lemma collect_Inr: "collect rs = Inr xs \<Longrightarrow> rs = map Inr xs"
proof (induction rs arbitrary: xs)
  case Nil
  then show ?case by simp
next
  case (Cons r rs)
  then show ?case by (cases r) (auto split: sum.splits)
qed

lemma collect_map_Inr: "collect (map Inr xs) = Inr xs"
  by (induction xs) simp_all

lemma collect_map:
  assumes "collect (map g xs) = Inr ys"
  shows "length ys = length xs \<and> (\<forall>i < length xs. g (xs ! i) = Inr (ys ! i))"
proof -
  from collect_Inr [OF assms] have eq: "map g xs = map Inr ys" .
  then have len: "length ys = length xs" by (metis length_map)
  have "g (xs ! i) = Inr (ys ! i)" if "i < length xs" for i
  proof -
    from that have "g (xs ! i) = map g xs ! i" by simp
    also have "\<dots> = map Inr ys ! i" by (simp only: eq)
    also from that len have "\<dots> = Inr (ys ! i)" by simp
    finally show ?thesis .
  qed
  with len show ?thesis by blast
qed

lemma collect_map_all:
  assumes "collect (map g xs) = Inr ys"
    and "\<And>x y. x \<in> set xs \<Longrightarrow> g x = Inr y \<Longrightarrow> Q y"
  shows "list_all Q ys"
proof -
  from collect_map [OF assms(1)]
  have len: "length ys = length xs" and nth: "\<forall>i < length xs. g (xs ! i) = Inr (ys ! i)"
    by blast+
  have "Q (ys ! i)" if "i < length ys" for i
    using that len nth assms(2) [of "xs ! i" "ys ! i"] by simp
  then show ?thesis by (simp add: list_all_length)
qed

lemma collect_total:
  assumes "\<And>x. x \<in> set xs \<Longrightarrow> g x = Inr (f x)"
  shows "collect (map g xs) = Inr (map f xs)"
proof -
  have "map g xs = map Inr (map f xs)" using assms by simp
  then show ?thesis by (simp only: collect_map_Inr)
qed

text \<open>
  The block after the loop either throws or leaves \<open>required_filtered\<close>; it does not throw
  when \<^verbatim>\<open>required\<close> loses no entry, nor when \<^verbatim>\<open>ToString\<close> converts every value.
\<close>

lemma clean_required_Inr:
  "clean_required to_string c = Inr c' \<Longrightarrow> c' = required_filtered c"
  unfolding clean_required_def required_filtered_def
  by (auto simp: Let_def split: option.splits json.splits if_splits sum.splits
           simp del: set_prop.simps delete_prop.simps)

lemma clean_required_unchanged:
  assumes "\<And>rs props. get_prop (JObj (fst c) (snd c)) ''required'' = Some (JArr rs) \<Longrightarrow>
             get_prop (JObj (fst c) (snd c)) ''properties'' = Some props \<Longrightarrow> truthy props \<Longrightarrow>
             False"
  shows "clean_required to_string c = Inr c"
proof (cases "get_prop (JObj (fst c) (snd c)) ''required''")
  case None
  then show ?thesis by (simp add: clean_required_def)
next
  case (Some r)
  note req = this
  show ?thesis
  proof (cases r)
    case (JArr rs)
    show ?thesis
    proof (cases "get_prop (JObj (fst c) (snd c)) ''properties''")
      case None
      with req JArr show ?thesis by (simp add: clean_required_def)
    next
      case (Some props)
      from assms [of rs props] req JArr Some have "\<not> truthy props" by blast
      with req JArr Some show ?thesis by (simp add: clean_required_def)
    qed
  qed (use req in \<open>simp_all add: clean_required_def\<close>)
qed


lemma js_join_total:
  assumes "\<forall>v. \<exists>t. to_string v = Inr t"
  shows "\<exists>line. js_join to_string sep xs = Inr line"
proof -
  let ?g = "\<lambda>x. case x of JNull \<Rightarrow> Inr [] | _ \<Rightarrow> to_string x"
  have "\<exists>t. ?g x = Inr t" for x
    using assms by (cases x) simp_all
  then obtain f where f: "\<And>x. ?g x = Inr (f x)" by metis
  have "collect (map ?g xs) = Inr (map f xs)"
    by (rule collect_total) (rule f)
  then show ?thesis by (simp add: js_join_def)
qed

lemma clean_required_total:
  assumes "\<forall>v. \<exists>t. to_string v = Inr t"
  shows "clean_required to_string c = Inr (required_filtered c)"
proof (cases c rule: required_filtered_cases)
  case unchanged
  have "clean_required to_string c = Inr c"
    by (rule clean_required_unchanged) (rule unchanged(2))
  with unchanged(1) show ?thesis by simp
next
  case (filtered rs props)
  let ?flt = "filter (array_includes (object_keys props)) rs"
  from js_join_total [OF assms]
  obtain line where "js_join to_string '', '' (filter (\<lambda>prop. \<not> js_includes ?flt prop) rs)
                       = Inr line"
    by blast
  with filtered show ?thesis
    unfolding clean_required_def required_filtered_def
    by (simp add: Let_def del: set_prop.simps delete_prop.simps)
next
  case (emptied rs props)
  let ?flt = "filter (array_includes (object_keys props)) rs"
  from js_join_total [OF assms]
  obtain line where "js_join to_string '', '' (filter (\<lambda>prop. \<not> js_includes ?flt prop) rs)
                       = Inr line"
    by blast
  with emptied show ?thesis
    unfolding clean_required_def required_filtered_def
    by (simp add: Let_def del: set_prop.simps delete_prop.simps)
qed

text \<open>
  The loop, for any nested call \<open>g\<close>: once a call has thrown nothing more is assigned;
  when the loop ends without an exception every nested call has returned, and the
  object built is the one that the assignments of the returned values build.
\<close>

lemma loop_Inl:
  "foldl (\<lambda>state kv. case state of Inl e \<Rightarrow> Inl e | Inr cleaned \<Rightarrow> h cleaned kv) (Inl e) es
     = Inl e"
  by (induction es) simp_all

lemma loop_Inr:
  assumes "foldl (\<lambda>state kv.
                    case state of
                      Inl e \<Rightarrow> Inl e
                    | Inr cleaned \<Rightarrow>
                        if fst kv \<in> set unsupportedFields then Inr cleaned
                        else if is_object (snd kv)
                        then (case g (snd kv) of
                                Inl e \<Rightarrow> Inl e
                              | Inr value \<Rightarrow> Inr (set_prop cleaned (fst kv) value))
                        else Inr (set_prop cleaned (fst kv) (snd kv)))
                 (Inr c) es = Inr c'"
    and "\<And>kv. f kv = (if is_object (snd kv)
                        then (case g (snd kv) of Inl e \<Rightarrow> JNull | Inr value \<Rightarrow> value)
                        else snd kv)"
  shows "c' = foldl (\<lambda>cleaned kv. if fst kv \<in> set unsupportedFields then cleaned
                                   else set_prop cleaned (fst kv) (f kv)) c es
         \<and> (\<forall>kv \<in> set es. fst kv \<notin> set unsupportedFields \<longrightarrow> is_object (snd kv) \<longrightarrow>
                g (snd kv) = Inr (f kv))"
  using assms(1)
proof (induction es arbitrary: c)
  case Nil
  then show ?case by simp
next
  case (Cons kv es)
  show ?case
  proof (cases "fst kv \<in> set unsupportedFields")
    case True
    with Cons.prems Cons.IH [of c] show ?thesis by simp
  next
    case False
    note kept = this
    show ?thesis
    proof (cases "is_object (snd kv)")
      case False
      with kept Cons.prems Cons.IH [of "set_prop c (fst kv) (snd kv)"] assms(2) [of kv]
      show ?thesis by simp
    next
      case True
      show ?thesis
      proof (cases "g (snd kv)")
        case (Inl e)
        with kept True Cons.prems show ?thesis by (simp add: loop_Inl)
      next
        case (Inr v)
        with True assms(2) [of kv] have "f kv = v" by simp
        with Inr kept True Cons.prems Cons.IH [of "set_prop c (fst kv) v"]
        show ?thesis by simp
      qed
    qed
  qed
qed

lemma loop_total:
  assumes "\<And>kv. kv \<in> set es \<Longrightarrow> fst kv \<notin> set unsupportedFields \<Longrightarrow> is_object (snd kv) \<Longrightarrow>
             g (snd kv) = Inr (f kv)"
    and "\<And>kv. kv \<in> set es \<Longrightarrow> \<not> is_object (snd kv) \<Longrightarrow> f kv = snd kv"
  shows "foldl (\<lambda>state kv.
                    case state of
                      Inl e \<Rightarrow> Inl e
                    | Inr cleaned \<Rightarrow>
                        if fst kv \<in> set unsupportedFields then Inr cleaned
                        else if is_object (snd kv)
                        then (case g (snd kv) of
                                Inl e \<Rightarrow> Inl e
                              | Inr value \<Rightarrow> Inr (set_prop cleaned (fst kv) value))
                        else Inr (set_prop cleaned (fst kv) (snd kv)))
                 (Inr c) es
         = Inr (foldl (\<lambda>cleaned kv. if fst kv \<in> set unsupportedFields then cleaned
                                     else set_prop cleaned (fst kv) (f kv)) c es)"
  using assms
proof (induction es arbitrary: c)
  case Nil
  show ?case by simp
next
  case (Cons kv es)
  have rest: "\<And>kv'. kv' \<in> set es \<Longrightarrow> fst kv' \<notin> set unsupportedFields \<Longrightarrow>
                is_object (snd kv') \<Longrightarrow> g (snd kv') = Inr (f kv')"
    "\<And>kv'. kv' \<in> set es \<Longrightarrow> \<not> is_object (snd kv') \<Longrightarrow> f kv' = snd kv'"
    using Cons.prems by simp_all
  show ?case
  proof (cases "fst kv \<in> set unsupportedFields")
    case True
    with Cons.IH [OF rest, of c] show ?thesis by simp
  next
    case False
    note kept = this
    show ?thesis
    proof (cases "is_object (snd kv)")
      case True
      with kept Cons.prems(1) [of kv] have "g (snd kv) = Inr (f kv)" by simp
      with kept True Cons.IH [OF rest, of "set_prop c (fst kv) (f kv)"] show ?thesis by simp
    next
      case False
      with Cons.prems(2) [of kv] have "f kv = snd kv" by simp
      with kept False Cons.IH [OF rest, of "set_prop c (fst kv) (f kv)"] show ?thesis by simp
    qed
  qed
qed

text \<open>What a call that returns has gone through, for an object.\<close>

lemma cleanJsonSchema_object:
  assumes "cleanJsonSchema to_string (JObj es p) = Inr v"
  obtains (returned) c where
    "c = foldl (\<lambda>cleaned kv. if fst kv \<in> set unsupportedFields then cleaned
                              else set_prop cleaned (fst kv) (entry_value to_string kv))
               ([], None) es"
    "\<And>kv. kv \<in> set es \<Longrightarrow> fst kv \<notin> set unsupportedFields \<Longrightarrow> is_object (snd kv) \<Longrightarrow>
       cleanJsonSchema to_string (snd kv) = Inr (entry_value to_string kv)"
    "v = JObj (fst (required_filtered c)) (snd (required_filtered c))"
proof -
  let ?loop = "foldl (\<lambda>state kv.
                    case state of
                      Inl e \<Rightarrow> Inl e
                    | Inr cleaned \<Rightarrow>
                        if fst kv \<in> set unsupportedFields then Inr cleaned
                        else if is_object (snd kv)
                        then (case cleanJsonSchema to_string (snd kv) of
                                Inl e \<Rightarrow> Inl e
                              | Inr value \<Rightarrow> Inr (set_prop cleaned (fst kv) value))
                        else Inr (set_prop cleaned (fst kv) (snd kv)))
                 (Inr ([], None)) es"
  from assms obtain c where loop: "?loop = Inr c"
    by (cases ?loop) simp_all
  with assms obtain c' where req: "clean_required to_string c = Inr c'"
    by (cases "clean_required to_string c") simp_all
  from assms loop req have v: "v = JObj (fst c') (snd c')"
    by (cases c') simp
  from clean_required_Inr [OF req] have c': "c' = required_filtered c" .
  from loop_Inr [where g = "cleanJsonSchema to_string" and f = "entry_value to_string",
                 OF loop]
  have "c = foldl (\<lambda>cleaned kv. if fst kv \<in> set unsupportedFields then cleaned
                                 else set_prop cleaned (fst kv) (entry_value to_string kv))
                  ([], None) es
        \<and> (\<forall>kv \<in> set es. fst kv \<notin> set unsupportedFields \<longrightarrow> is_object (snd kv) \<longrightarrow>
               cleanJsonSchema to_string (snd kv) = Inr (entry_value to_string kv))"
    by (simp add: entry_value_def)
  with v c' show ?thesis by (intro that [of c]) simp_all
qed

lemma entry_value_not_object: "\<not> is_object (snd kv) \<Longrightarrow> entry_value to_string kv = snd kv"
  by (simp add: entry_value_def)

lemma not_object_rejected_free: "\<not> is_object v \<Longrightarrow> rejected_free v"
  by (cases v) simp_all

lemma cleanJsonSchema_rejected_free:
  "cleanJsonSchema to_string s = Inr v \<Longrightarrow> rejected_free v"
proof (induction to_string s arbitrary: v rule: cleanJsonSchema.induct)
  case (1 to_string xs)
  from "1.prems" obtain ys where ys: "collect (map (cleanJsonSchema to_string) xs) = Inr ys"
    and v: "v = JArr ys"
    by (auto split: sum.splits)
  from collect_map_all [OF ys, of rejected_free] "1.IH" have "list_all rejected_free ys"
    by blast
  with v show ?case by simp
next
  case (2 to_string es p)
  from "2.prems" show ?case
  proof (cases rule: cleanJsonSchema_object)
    case (returned c)
    note c = returned(1) and nested = returned(2) and v = returned(3)
  have elems: "rejected_free (entry_value to_string kv)"
    if "kv \<in> set es" "fst kv \<notin> set unsupportedFields" for kv
  proof (cases "is_object (snd kv)")
    case True
    from "2.IH" [OF that(1) refl that(2) True nested [OF that True]] show ?thesis .
  next
    case False
    then show ?thesis by (simp add: entry_value_not_object not_object_rejected_free)
  qed
  have "rejected_free (JObj [] None)" by simp
  then have "rejected_free (JObj (fst ([], None)) (snd ([], None)))" by simp
  from rejected_free_foldl [where f = "entry_value to_string", OF this elems]
  have "rejected_free (JObj (fst c) (snd c))" unfolding c by blast
  from rejected_free_required_filtered [OF this] v show ?thesis by simp
  qed
qed simp_all

text \<open>The sanitiser returns whenever \<^verbatim>\<open>ToString\<close> converts every value.\<close>

lemma cleanJsonSchema_returns:
  assumes "\<forall>v. \<exists>t. to_string v = Inr t"
  shows "\<exists>v. cleanJsonSchema to_string s = Inr v"
  using assms
proof (induction to_string s rule: cleanJsonSchema.induct)
  case (1 to_string xs)
  have "\<exists>y. cleanJsonSchema to_string x = Inr y" if "x \<in> set xs" for x
    using "1.IH" [OF that] "1.prems" by blast
  then obtain f where "\<And>x. x \<in> set xs \<Longrightarrow> cleanJsonSchema to_string x = Inr (f x)"
    by metis
  then have "collect (map (cleanJsonSchema to_string) xs) = Inr (map f xs)"
    by (rule collect_total)
  then show ?case by simp
next
  case (2 to_string es p)
  have nested: "cleanJsonSchema to_string (snd kv) = Inr (entry_value to_string kv)"
    if "kv \<in> set es" "fst kv \<notin> set unsupportedFields" "is_object (snd kv)" for kv
  proof -
    from "2.IH" [OF that(1) refl that(2,3)] "2.prems"
    obtain y where "cleanJsonSchema to_string (snd kv) = Inr y" by blast
    with that(3) show ?thesis by (simp add: entry_value_def)
  qed
  from loop_total [where g = "cleanJsonSchema to_string" and f = "entry_value to_string"
                     and es = es and c = "([], None)", OF nested entry_value_not_object]
  have loop: "foldl (\<lambda>state kv.
                    case state of
                      Inl e \<Rightarrow> Inl e
                    | Inr cleaned \<Rightarrow>
                        if fst kv \<in> set unsupportedFields then Inr cleaned
                        else if is_object (snd kv)
                        then (case cleanJsonSchema to_string (snd kv) of
                                Inl e \<Rightarrow> Inl e
                              | Inr value \<Rightarrow> Inr (set_prop cleaned (fst kv) value))
                        else Inr (set_prop cleaned (fst kv) (snd kv)))
                 (Inr ([], None)) es
         = Inr (foldl (\<lambda>cleaned kv. if fst kv \<in> set unsupportedFields then cleaned
                                     else set_prop cleaned (fst kv) (entry_value to_string kv))
                      ([], None) es)"
    by blast
  show ?case
    by (simp only: cleanJsonSchema.simps loop sum.case clean_required_total [OF "2.prems"]
          prod.case_eq_if) blast
qed simp_all

text \<open>
  It throws when \<^verbatim>\<open>required\<close> loses an entry that \<^verbatim>\<open>ToString\<close> cannot convert: in the two
  schemas below the entry is an object that has no callable \<^verbatim>\<open>toString\<close>.
\<close>

lemma null_proto_required_throws:
  assumes "to_string (JObj [] (Some JNull)) = Inl e"
  shows "cleanJsonSchema to_string null_proto_required = Inl e"
  using assms
  by (simp add: null_proto_required_def unsupportedFields_def clean_required_def js_join_def)

lemma toString_required_throws:
  assumes "to_string (JObj [(''toString'', JNum 1)] None) = Inl e"
  shows "cleanJsonSchema to_string toString_required = Inl e"
  using assms
  by (simp add: toString_required_def unsupportedFields_def clean_required_def js_join_def)

lemma S1_cleaned:
  "cleanJsonSchema to_string S1_schema =
     Inr (JObj [(''type'', JStr ''object''),
                (''properties'', JObj [(''q'', JObj [(''type'', JStr ''string'')] None)] None),
                (''required'', JArr [JStr ''q''])] None)"
  by (simp add: S1_schema_def unsupportedFields_def clean_required_def)

text \<open>
  C1. Whatever JSON value the sanitiser is given, no rejected keyword is a key at any
  nesting depth of the value it returns, and a value that is neither an object nor an
  array is returned as it is.
\<close>

theorem cleanJsonSchema_removes_rejected:
  "(cleanJsonSchema to_string s = Inr v \<longrightarrow> rejected_free v)
   \<and> (\<not> is_object s \<longrightarrow> cleanJsonSchema to_string s = Inr s)"
proof
  show "cleanJsonSchema to_string s = Inr v \<longrightarrow> rejected_free v"
    by (blast intro: cleanJsonSchema_rejected_free)
  show "\<not> is_object s \<longrightarrow> cleanJsonSchema to_string s = Inr s"
    by (cases s) simp_all
qed

theorem cleanJsonSchema_removes_rejected_witness:
  "cleanJsonSchema to_string_stub S1_schema =
     Inr (JObj [(''type'', JStr ''object''),
                (''properties'', JObj [(''q'', JObj [(''type'', JStr ''string'')] None)] None),
                (''required'', JArr [JStr ''q''])] None)
   \<and> rejected_free
       (JObj [(''type'', JStr ''object''),
              (''properties'', JObj [(''q'', JObj [(''type'', JStr ''string'')] None)] None),
              (''required'', JArr [JStr ''q''])] None)
   \<and> \<not> is_object (JStr ''string'')
   \<and> cleanJsonSchema to_string_stub (JStr ''string'') = Inr (JStr ''string'')"
proof -
  let ?v = "JObj [(''type'', JStr ''object''),
                  (''properties'', JObj [(''q'', JObj [(''type'', JStr ''string'')] None)] None),
                  (''required'', JArr [JStr ''q''])] None"
  have run: "cleanJsonSchema to_string_stub S1_schema = Inr ?v"
    by (rule S1_cleaned)
  have prim: "\<not> is_object (JStr ''string'')" by simp
  from cleanJsonSchema_removes_rejected [of to_string_stub S1_schema ?v] run
  have "rejected_free ?v" by blast
  moreover from cleanJsonSchema_removes_rejected [of to_string_stub "JStr ''string''"] prim
  have "cleanJsonSchema to_string_stub (JStr ''string'') = Inr (JStr ''string'')" by blast
  ultimately show ?thesis using run prim by blast
qed

subsection \<open>Idempotence\<close>

lemma own_json_truthy [simp]: "truthy (own_json v) = truthy v"
  by (cases v) simp_all

lemma own_json_is_object [simp]: "is_object (own_json v) = is_object v"
  by (cases v) simp_all

lemma own_json_object_keys [simp]: "object_keys (own_json v) = object_keys v"
  by (cases v) (simp_all add: comp_def)






























section \<open>Properties of the request translator\<close>

lemma convert_messages_foldl:
  "convert_messages s msgs ms cs = Inr (cs', ls, ms') \<Longrightarrow>
   cs' = foldl (\<lambda>acc m. push_content acc (gemini_role m) (message_parts s msgs m)) cs ms"
proof (induction ms arbitrary: cs cs' ls ms')
  case Nil
  then show ?case by simp
next
  case (Cons m ms)
  from Cons.prems obtain ps l1 m' where
    cm: "convert_message s msgs m = Inr (ps, l1, m')"
    by (auto split: sum.splits)
  with Cons.prems obtain l2 rest' where
    rec: "convert_messages s msgs ms (push_content cs (gemini_role m) ps) = Inr (cs', l2, rest')"
    by (auto split: sum.splits)
  have "message_parts s msgs m = ps" using cm by (simp add: message_parts_def)
  with Cons.IH [OF rec] show ?case by simp
qed

lemma merge_runs_nonempty: "merge_runs xs = [] \<longleftrightarrow> xs = []"
  by (induction xs rule: merge_runs.induct) auto

lemma push_content_merge_runs:
  "push_content (merge_runs xs) r ps = merge_runs (xs @ [(r, ps)])"
proof (induction xs rule: merge_runs.induct)
  case 1
  show ?case by (simp add: push_content_def)
next
  case (2 r' ps')
  show ?case by (simp add: push_content_def)
next
  case (3 r1 ps1 r2 ps2 rest)
  show ?case
  proof (cases "r1 = r2")
    case True
    with 3 show ?thesis by simp
  next
    case False
    have ne: "merge_runs ((r2, ps2) # rest) \<noteq> []" by (simp add: merge_runs_nonempty)
    from False 3(2) ne show ?thesis
      by (auto simp: push_content_def butlast_append)
  qed
qed

lemma foldl_push_content_merge_runs:
  "foldl (\<lambda>acc m. push_content acc (f m) (g m)) (merge_runs xs) ms
     = merge_runs (xs @ map (\<lambda>m. (f m, g m)) ms)"
proof (induction ms arbitrary: xs)
  case Nil
  show ?case by simp
next
  case (Cons m ms)
  show ?case using Cons [of "xs @ [(f m, g m)]"] by (simp add: push_content_merge_runs)
qed

lemma merge_runs_roles: "map role (merge_runs xs) = remdups_adj (map fst xs)"
  by (induction xs rule: merge_runs.induct) auto

lemma merge_runs_parts: "concat (map parts (merge_runs xs)) = concat (map snd xs)"
  by (induction xs rule: merge_runs.induct) auto

lemma merge_runs_distinct_adj: "distinct_adj (map role (merge_runs xs))"
  by (simp add: merge_runs_roles)

lemma function_response_names_append:
  "function_response_names (ps @ qs) = function_response_names ps @ function_response_names qs"
  by (induction ps rule: function_response_names.induct) auto

lemma function_response_names_concat:
  "function_response_names (concat pss) = concat (map function_response_names pss)"
  by (induction pss) (auto simp: function_response_names_append)

lemma convert_block_names:
  "convert_block s msgs b = Inr (ps, ls, b') \<Longrightarrow>
   function_response_names ps = map (function_name msgs) (block_tool_result_ids [b])"
proof (cases b)
  case (ToolResultBlock T c e)
  assume a: "convert_block s msgs b = Inr (ps, ls, b')"
  with ToolResultBlock obtain v where "c = Some v" by (cases c) auto
  with a ToolResultBlock show ?thesis
    by (auto simp: Let_def split: prod.splits)
qed auto

lemma block_tool_result_ids_Cons:
  "block_tool_result_ids (b # bs) = block_tool_result_ids [b] @ block_tool_result_ids bs"
  by (cases b) auto

lemma convert_blocks_names:
  "convert_blocks s msgs bs = Inr (ps, ls, bs') \<Longrightarrow>
   function_response_names ps = map (function_name msgs) (block_tool_result_ids bs)"
proof (induction bs arbitrary: ps ls bs')
  case Nil
  then show ?case by simp
next
  case (Cons b bs)
  from Cons.prems obtain p1 l1 b1 where
    cb: "convert_block s msgs b = Inr (p1, l1, b1)"
    by (auto split: sum.splits)
  with Cons.prems obtain p2 l2 b2 where
    rec: "convert_blocks s msgs bs = Inr (p2, l2, b2)" and ps: "ps = p1 @ p2"
    by (auto split: sum.splits)
  show ?case
    unfolding ps function_response_names_append
    using convert_block_names [OF cb] Cons.IH [OF rec]
    by (subst block_tool_result_ids_Cons) simp
qed

lemma convert_message_names:
  "convert_message s msgs m = Inr (ps, ls, m') \<Longrightarrow>
   function_response_names ps = map (function_name msgs) (block_tool_result_ids (message_blocks m))"
  by (auto simp: convert_message_def message_blocks_def
           split: message_content.splits sum.splits dest: convert_blocks_names)

lemma convert_messages_each:
  "convert_messages s msgs ms cs = Inr (cs', ls, ms') \<Longrightarrow> m \<in> set ms \<Longrightarrow>
   \<exists>ps l m'. convert_message s msgs m = Inr (ps, l, m')"
proof (induction ms arbitrary: cs cs' ls ms')
  case Nil
  then show ?case by simp
next
  case (Cons a ms)
  from Cons.prems(1) obtain ps l1 a' where
    cm: "convert_message s msgs a = Inr (ps, l1, a')"
    by (auto split: sum.splits)
  with Cons.prems(1) obtain l2 rest' where
    rec: "convert_messages s msgs ms (push_content cs (gemini_role a) ps) = Inr (cs', l2, rest')"
    by (auto split: sum.splits)
  show ?case
  proof (cases "m = a")
    case True
    with cm show ?thesis by blast
  next
    case False
    with Cons.prems(2) have "m \<in> set ms" by simp
    from Cons.IH [OF rec this] show ?thesis .
  qed
qed

lemma message_parts_names:
  assumes "\<exists>ps l m'. convert_message s msgs m = Inr (ps, l, m')"
  shows "function_response_names (message_parts s msgs m)
           = map (function_name msgs) (block_tool_result_ids (message_blocks m))"
proof -
  from assms obtain ps l m' where cm: "convert_message s msgs m = Inr (ps, l, m')" by blast
  then have "message_parts s msgs m = ps" by (simp add: message_parts_def)
  with convert_message_names [OF cm] show ?thesis by simp
qed

lemma translation_contents:
  assumes "claudeToGeminiRequest mcp s ts r = Inr (g, ls, r')"
  shows "convert_messages s (request_messages r) (request_messages r) [] =
           Inr (contents g, ls, request_messages r')"
  using assms
  by (auto simp: claudeToGeminiRequest_def Let_def request_messages_def
           split: sum.splits option.splits)

lemma not_found_ids_append: "not_found_ids (ks @ ls) = not_found_ids ks @ not_found_ids ls"
  by (induction ks rule: not_found_ids.induct) auto

lemma convert_block_not_found:
  "convert_block s msgs b = Inr (ps, ls, b') \<Longrightarrow>
   not_found_ids ls = filter (\<lambda>T. function_name msgs T = T) (block_tool_result_ids [b])"
proof (cases b)
  case (ToolResultBlock T c e)
  assume a: "convert_block s msgs b = Inr (ps, ls, b')"
  with ToolResultBlock obtain v where "c = Some v" by (cases c) auto
  with a ToolResultBlock show ?thesis
    by (cases v) (auto simp: Let_def not_found_ids_append split: prod.splits)
qed auto

lemma convert_blocks_not_found:
  "convert_blocks s msgs bs = Inr (ps, ls, bs') \<Longrightarrow>
   not_found_ids ls = filter (\<lambda>T. function_name msgs T = T) (block_tool_result_ids bs)"
proof (induction bs arbitrary: ps ls bs')
  case Nil
  then show ?case by simp
next
  case (Cons b bs)
  from Cons.prems obtain p1 l1 b1 where
    cb: "convert_block s msgs b = Inr (p1, l1, b1)"
    by (auto split: sum.splits)
  with Cons.prems obtain p2 l2 b2 where
    rec: "convert_blocks s msgs bs = Inr (p2, l2, b2)" and ls: "ls = l1 @ l2"
    by (auto split: sum.splits)
  show ?case
    unfolding ls not_found_ids_append
    using convert_block_not_found [OF cb] Cons.IH [OF rec]
    by (subst block_tool_result_ids_Cons) simp
qed

lemma convert_message_not_found:
  "convert_message s msgs m = Inr (ps, ls, m') \<Longrightarrow>
   not_found_ids ls
     = filter (\<lambda>T. function_name msgs T = T) (block_tool_result_ids (message_blocks m))"
  by (auto simp: convert_message_def message_blocks_def
           split: message_content.splits sum.splits dest: convert_blocks_not_found)

lemma convert_messages_not_found:
  "convert_messages s msgs ms cs = Inr (cs', ls, ms') \<Longrightarrow>
   not_found_ids ls = filter (\<lambda>T. function_name msgs T = T) (tool_result_ids ms)"
proof (induction ms arbitrary: cs cs' ls ms')
  case Nil
  then show ?case by (simp add: tool_result_ids_def)
next
  case (Cons a ms)
  from Cons.prems(1) obtain ps l1 a' where
    cm: "convert_message s msgs a = Inr (ps, l1, a')"
    by (auto split: sum.splits)
  with Cons.prems(1) obtain l2 rest' where
    rec: "convert_messages s msgs ms (push_content cs (gemini_role a) ps) = Inr (cs', l2, rest')"
    and ls: "ls = l1 @ l2"
    by (auto split: sum.splits)
  from convert_message_not_found [OF cm] Cons.IH [OF rec]
  show ?case by (simp add: ls not_found_ids_append tool_result_ids_def)
qed

lemma search_backwards_none:
  "\<forall>m \<in> set ms. tool_use_in T m = None \<Longrightarrow> search_backwards T ms T = T"
  by (induction ms) (auto simp: tool_use_in_def Let_def split: message_content.splits)

lemma search_backwards_found:
  assumes "\<forall>m' \<in> set later. tool_use_in T m' = None"
    and "tool_use_in T m = Some n" and "n \<noteq> T"
  shows "search_backwards T (later @ m # earlier) T = n"
  using assms
  by (induction later) (auto simp: tool_use_in_def Let_def split: message_content.splits)

lemma function_name_none:
  "\<forall>m \<in> set msgs. tool_use_in T m = None \<Longrightarrow> function_name msgs T = T"
  by (simp add: function_name_def search_backwards_none)

lemma function_name_found:
  assumes "msgs = before @ m # after"
    and "\<forall>m' \<in> set after. tool_use_in T m' = None"
    and "tool_use_in T m = Some n" and "n \<noteq> T"
  shows "function_name msgs T = n"
proof -
  have "\<forall>m' \<in> set (rev after). tool_use_in T m' = None" using assms(2) by simp
  from search_backwards_found [OF this assms(3,4)]
  show ?thesis by (simp add: function_name_def assms(1))
qed

lemma translated_names:
  assumes "claudeToGeminiRequest mcp s ts r = Inr (g, ls, r')"
  shows "function_response_names (concat (map parts (contents g)))
           = map (function_name (request_messages r)) (tool_result_ids (request_messages r))"
proof -
  let ?msgs = "request_messages r"
  from translation_contents [OF assms]
  have cm: "convert_messages s ?msgs ?msgs [] = Inr (contents g, ls, request_messages r')" .
  have "contents g = merge_runs ([] @ map (\<lambda>m. (gemini_role m, message_parts s ?msgs m)) ?msgs)"
    using convert_messages_foldl [OF cm]
          foldl_push_content_merge_runs [of gemini_role "message_parts s ?msgs" "[]" ?msgs]
    by simp
  then have "concat (map parts (contents g)) = concat (map (message_parts s ?msgs) ?msgs)"
    by (simp add: merge_runs_parts comp_def)
  moreover have "function_response_names (message_parts s ?msgs m)
      = map (function_name ?msgs) (block_tool_result_ids (message_blocks m))"
    if "m \<in> set ?msgs" for m
    using convert_messages_each [OF cm that] by (rule message_parts_names)
  ultimately show ?thesis
    by (simp add: function_response_names_concat tool_result_ids_def map_concat comp_def
             cong: map_cong)
qed

lemmas translation_defs =
  claudeToGeminiRequest_def request_messages_def convert_message_def push_content_def
  gemini_role_def max_output_tokens_def hasFunctionResponse_def
  all_tools_def function_declaration_of_def function_name_def base_request_def
  safety_settings_def empty_object_def Let_def

text \<open>
  The tools of a first turn are converted with their schemas sanitised, and the exception
  of the sanitiser ends the translation.
\<close>

lemma search_tool_eval:
  "claudeToGeminiRequest None s ts search_tool_request =
     Inr (\<lparr>contents = [\<lparr>role = ''user'', parts = [TextPart ''a'']\<rparr>],
           safetySettings = safety_settings,
           generationConfig = \<lparr>maxOutputTokens = Some 4096, gc_temperature = None, topP = None,
                                topK = None, stopSequences = None\<rparr>,
           system_instruction = None,
           gemini_tools = Some
             [\<lparr>fd_name = ''search'', fd_description = [],
               parameters = Some
                 (JObj [(''type'', JStr ''object''),
                        (''properties'',
                           JObj [(''q'', JObj [(''type'', JStr ''string'')] None)] None),
                        (''required'', JArr [JStr ''q''])] None)\<rparr>]\<rparr>,
          [], search_tool_request)"
proof -
  have "truthy S1_schema" by (simp add: S1_schema_def)
  then show ?thesis by (simp add: translation_defs search_tool_request_def S1_cleaned)
qed

lemma null_proto_tool_throws:
  assumes "ts (JObj [] (Some JNull)) = Inl e"
  shows "claudeToGeminiRequest None s ts null_proto_tool_request = Inl e"
proof -
  have "truthy null_proto_required" by (simp add: null_proto_required_def)
  moreover from assms have "cleanJsonSchema ts null_proto_required = Inl e"
    by (rule null_proto_required_throws)
  ultimately show ?thesis by (simp add: translation_defs null_proto_tool_request_def)
qed

text \<open>
  C9. When the request has \<^verbatim>\<open>max_tokens\<close>, the outbound \<^verbatim>\<open>maxOutputTokens\<close> is that value if
  it is at least 100, and 4096 if it is below 100.
\<close>

theorem max_tokens_clamped:
  assumes "claudeToGeminiRequest mcp s ts r = Inr (g, ls, r')" and "max_tokens r = Some n"
  shows "(100 \<le> n \<longrightarrow> maxOutputTokens (generationConfig g) = Some n)
       \<and> (n < 100 \<longrightarrow> maxOutputTokens (generationConfig g) = Some 4096)"
  using assms
  by (auto simp: claudeToGeminiRequest_def Let_def max_output_tokens_def split: sum.splits)

lemma small_max_tokens_eval:
  "claudeToGeminiRequest None stringify_stub to_string_stub small_max_tokens_request =
     Inr (\<lparr>contents = [\<lparr>role = ''user'', parts = [TextPart ''a'', TextPart ''b'']\<rparr>,
                        \<lparr>role = ''model'', parts = [TextPart ''c'']\<rparr>],
           safetySettings = safety_settings,
           generationConfig = \<lparr>maxOutputTokens = Some 4096, gc_temperature = None, topP = None,
                                topK = None, stopSequences = None\<rparr>,
           system_instruction = None, gemini_tools = None\<rparr>,
          [], small_max_tokens_request)"
  by (simp add: translation_defs small_max_tokens_request_def S2_request_def)

theorem max_tokens_clamped_witness:
  "max_tokens small_max_tokens_request = Some 1
   \<and> (\<exists>g ls r'. claudeToGeminiRequest None stringify_stub to_string_stub small_max_tokens_request = Inr (g, ls, r')
        \<and> maxOutputTokens (generationConfig g) = Some 4096)"
proof -
  have m: "max_tokens small_max_tokens_request = Some 1"
    by (simp add: small_max_tokens_request_def)
  from max_tokens_clamped [OF small_max_tokens_eval m] m small_max_tokens_eval
  show ?thesis by simp
qed

text \<open>
  C3. If any part of the translated contents is a function response, the outbound
  request has no \<^verbatim>\<open>tools\<close>, whatever tools the client or the MCP integration declared.
\<close>

theorem no_tools_with_function_response:
  assumes "claudeToGeminiRequest mcp s ts r = Inr (g, ls, r')"
    and "\<exists>c \<in> set (contents g). \<exists>p \<in> set (parts c). \<exists>n resp. p = FunctionResponsePart n resp"
  shows "gemini_tools g = None"
proof -
  from assms(2) have "hasFunctionResponse (contents g)"
    by (force simp: hasFunctionResponse_def list_ex_iff)
  with assms(1) show ?thesis
    by (auto simp: claudeToGeminiRequest_def Let_def split: sum.splits)
qed

lemma S3_eval:
  "claudeToGeminiRequest None stringify_stub to_string_stub S3_request =
     Inr (\<lparr>contents = [\<lparr>role = ''user'', parts = [TextPart ''get weather for Paris'']\<rparr>,
                        \<lparr>role = ''model'', parts = [FunctionCallPart ''get_weather'' (JObj [(''city'', JStr ''Paris'')] None)]\<rparr>,
                        \<lparr>role = ''user'', parts = [FunctionResponsePart ''get_weather'' (JObj [(''result'', JStr ''sunny'')] None)]\<rparr>],
           safetySettings = safety_settings,
           generationConfig = \<lparr>maxOutputTokens = Some 4096, gc_temperature = None, topP = None,
                                topK = None, stopSequences = None\<rparr>,
           system_instruction = None, gemini_tools = None\<rparr>,
          [LogConvertedToolResult ''toolu_1'' ''get_weather''], S3_request)"
  by (simp add: translation_defs S3_request_def S3_messages_def get_weather_tool_def)

theorem no_tools_with_function_response_witness:
  "\<exists>g ls r'. claudeToGeminiRequest None stringify_stub to_string_stub S3_request = Inr (g, ls, r')
      \<and> (\<exists>c \<in> set (contents g). \<exists>p \<in> set (parts c). \<exists>n resp. p = FunctionResponsePart n resp)
      \<and> tools S3_request = Some [get_weather_tool]
      \<and> gemini_tools g = None"
proof -
  let ?g = "\<lparr>contents = [\<lparr>role = ''user'', parts = [TextPart ''get weather for Paris'']\<rparr>,
                        \<lparr>role = ''model'', parts = [FunctionCallPart ''get_weather'' (JObj [(''city'', JStr ''Paris'')] None)]\<rparr>,
                        \<lparr>role = ''user'', parts = [FunctionResponsePart ''get_weather'' (JObj [(''result'', JStr ''sunny'')] None)]\<rparr>],
           safetySettings = safety_settings,
           generationConfig = \<lparr>maxOutputTokens = Some 4096, gc_temperature = None, topP = None,
                                topK = None, stopSequences = None\<rparr>,
           system_instruction = None, gemini_tools = None\<rparr>"
  have fr: "\<exists>c \<in> set (contents ?g). \<exists>p \<in> set (parts c). \<exists>n resp. p = FunctionResponsePart n resp"
    by simp
  have t: "tools S3_request = Some [get_weather_tool]"
    by (simp add: S3_request_def)
  from no_tools_with_function_response [OF S3_eval fr] S3_eval fr t
  show ?thesis by blast
qed

text \<open>
  C4. No two adjacent entries of the translated contents have the same role: the
  contents are the messages with every run of consecutive messages of one translated
  role (assistant becomes model, anything else user) merged into one entry, whose parts
  are the parts of the run in order.
\<close>

theorem same_role_turns_merged:
  assumes "claudeToGeminiRequest mcp s ts r = Inr (g, ls, r')"
  shows "distinct_adj (map role (contents g))
       \<and> contents g = merge_runs (map (\<lambda>m. (gemini_role m, message_parts s (request_messages r) m))
                                      (request_messages r))
       \<and> map role (contents g) = remdups_adj (map gemini_role (request_messages r))
       \<and> concat (map parts (contents g))
           = concat (map (message_parts s (request_messages r)) (request_messages r))"
proof -
  let ?msgs = "request_messages r"
  let ?xs = "map (\<lambda>m. (gemini_role m, message_parts s ?msgs m)) ?msgs"
  from translation_contents [OF assms]
  have cm: "convert_messages s ?msgs ?msgs [] = Inr (contents g, ls, request_messages r')" .
  have eq: "contents g = merge_runs ?xs"
    using convert_messages_foldl [OF cm]
          foldl_push_content_merge_runs [of gemini_role "message_parts s ?msgs" "[]" ?msgs]
    by simp
  have "distinct_adj (map role (merge_runs ?xs))" by (rule merge_runs_distinct_adj)
  moreover have "map role (merge_runs ?xs) = remdups_adj (map gemini_role ?msgs)"
    by (simp add: merge_runs_roles comp_def)
  moreover have "concat (map parts (merge_runs ?xs)) = concat (map (message_parts s ?msgs) ?msgs)"
    by (simp add: merge_runs_parts comp_def)
  ultimately show ?thesis unfolding eq by simp
qed

lemma S2_eval:
  "claudeToGeminiRequest None stringify_stub to_string_stub S2_request =
     Inr (\<lparr>contents = [\<lparr>role = ''user'', parts = [TextPart ''a'', TextPart ''b'']\<rparr>,
                        \<lparr>role = ''model'', parts = [TextPart ''c'']\<rparr>],
           safetySettings = safety_settings,
           generationConfig = \<lparr>maxOutputTokens = Some 4096, gc_temperature = None, topP = None,
                                topK = None, stopSequences = None\<rparr>,
           system_instruction = None, gemini_tools = None\<rparr>,
          [], S2_request)"
  by (simp add: translation_defs S2_request_def)

theorem same_role_turns_merged_witness:
  "\<exists>g ls r'. claudeToGeminiRequest None stringify_stub to_string_stub S2_request = Inr (g, ls, r')
     \<and> contents g = [\<lparr>role = ''user'', parts = [TextPart ''a'', TextPart ''b'']\<rparr>,
                      \<lparr>role = ''model'', parts = [TextPart ''c'']\<rparr>]
     \<and> distinct_adj (map role (contents g))"
proof -
  from same_role_turns_merged [OF S2_eval]
  have "distinct_adj (map role (contents
          \<lparr>contents = [\<lparr>role = ''user'', parts = [TextPart ''a'', TextPart ''b'']\<rparr>,
                        \<lparr>role = ''model'', parts = [TextPart ''c'']\<rparr>],
           safetySettings = safety_settings,
           generationConfig = \<lparr>maxOutputTokens = Some 4096, gc_temperature = None, topP = None,
                                topK = None, stopSequences = None\<rparr>,
           system_instruction = None, gemini_tools = None\<rparr>))"
    by blast
  with S2_eval show ?thesis by simp
qed

text \<open>The search, whatever the messages: the first name other than the id, else the id.\<close>

lemma search_backwards_result:
  "search_backwards T ms T =
     (case filter (\<lambda>n. n \<noteq> T) (List.map_filter (tool_use_in T) ms) of
        [] \<Rightarrow> T | n # ns \<Rightarrow> n)"
  by (induction ms)
     (auto simp: List.map_filter_simps tool_use_in_def Let_def
           split: message_content.splits option.splits)

lemma find_tool_use_map_of: "find_tool_use T bs = map_of (tool_uses bs) T"
  by (induction bs rule: tool_uses.induct) auto

lemma tool_uses_append: "tool_uses (xs @ ys) = tool_uses xs @ tool_uses ys"
  by (induction xs rule: tool_uses.induct) auto

lemma tool_uses_concat: "tool_uses (concat bss) = concat (map tool_uses bss)"
  by (induction bss) (auto simp: tool_uses_append)

lemma tool_use_in_map_of: "tool_use_in T m = map_of (tool_uses (message_blocks m)) T"
  by (simp add: tool_use_in_def message_blocks_def find_tool_use_map_of
           split: message_content.splits)

text \<open>With distinct keys, the matches of a key in pieces of a list are its one match.\<close>

lemma distinct_matches:
  "distinct (map fst (concat xss)) \<Longrightarrow>
   List.map_filter (\<lambda>xs. map_of xs k) xss
     = (case map_of (concat xss) k of None \<Rightarrow> [] | Some v \<Rightarrow> [v])"
proof (induction xss)
  case Nil
  show ?case by (simp add: List.map_filter_simps)
next
  case (Cons xs xss)
  from Cons.prems have d: "distinct (map fst (concat xss))"
    and disj: "fst ` set xs \<inter> fst ` set (concat xss) = {}"
    by auto
  show ?case
  proof (cases "map_of xs k")
    case None
    with Cons.IH [OF d] show ?thesis
      by (simp add: List.map_filter_simps map_add_def split: option.splits)
  next
    case (Some v)
    then have "k \<in> fst ` set xs"
      by (rule_tac ccontr) (simp add: map_of_eq_None_iff [symmetric])
    with disj have "k \<notin> fst ` set (concat xss)" by auto
    then have "map_of (concat xss) k = None" by (simp add: map_of_eq_None_iff)
    with Cons.IH [OF d] Some show ?thesis
      by (simp add: List.map_filter_simps map_add_def)
  qed
qed

lemma map_of_rev_distinct: "distinct (map fst xs) \<Longrightarrow> map_of (rev xs) = map_of xs"
  by (subst map_of_inject_set) (simp_all add: rev_map [symmetric])

lemma map_filter_rev: "List.map_filter f (rev xs) = rev (List.map_filter f xs)"
  by (simp add: List.map_filter_def rev_map [symmetric] rev_filter [symmetric])

lemma function_name_distinct:
  assumes "distinct (map fst (tool_uses (all_blocks msgs)))"
  shows "function_name msgs T
           = (case map_of (tool_uses (all_blocks msgs)) T of None \<Rightarrow> T | Some n \<Rightarrow> n)"
proof -
  let ?xss = "map (\<lambda>m. tool_uses (message_blocks m)) msgs"
  have c: "concat ?xss = tool_uses (all_blocks msgs)"
    by (simp add: all_blocks_def tool_uses_concat comp_def)
  have "List.map_filter (tool_use_in T) msgs = List.map_filter (\<lambda>xs. map_of xs T) ?xss"
    by (simp add: List.map_filter_def tool_use_in_map_of comp_def filter_map)
  also have "\<dots> = (case map_of (tool_uses (all_blocks msgs)) T of None \<Rightarrow> [] | Some v \<Rightarrow> [v])"
    using distinct_matches [of ?xss T] assms c by simp
  finally have m: "List.map_filter (tool_use_in T) msgs
      = (case map_of (tool_uses (all_blocks msgs)) T of None \<Rightarrow> [] | Some v \<Rightarrow> [v])" .
  show ?thesis
    unfolding function_name_def search_backwards_result map_filter_rev m
    by (simp split: option.splits)
qed

lemma spec_names_distinct:
  assumes "distinct (map fst (tool_uses (pre @ bs)))" and "results_follow_uses bs"
  shows "spec_names (rev (tool_uses pre)) bs
           = map (\<lambda>T. case map_of (tool_uses (pre @ bs)) T of None \<Rightarrow> T | Some n \<Rightarrow> n)
               (block_tool_result_ids bs)"
  using assms
proof (induction bs arbitrary: pre)
  case Nil
  show ?case by simp
next
  case (Cons b bs)
  have app: "pre @ b # bs = (pre @ [b]) @ bs" by simp
  show ?case
  proof (cases b)
    case (ToolUseBlock i n a)
    from Cons.prems have d: "distinct (map fst (tool_uses ((pre @ [b]) @ bs)))"
      and r: "results_follow_uses bs"
      using ToolUseBlock by simp_all
    from Cons.IH [OF d r] ToolUseBlock show ?thesis
      by (simp add: tool_uses_append)
  next
    case (ToolResultBlock T c e)
    from Cons.prems ToolResultBlock have d: "distinct (map fst (tool_uses ((pre @ [b]) @ bs)))"
      and r: "results_follow_uses bs" and later: "T \<notin> fst ` set (tool_uses bs)"
      by simp_all
    from Cons.prems(1) have dp: "distinct (map fst (tool_uses pre))"
      by (simp add: tool_uses_append)
    have "map_of (rev (tool_uses pre)) T = map_of (tool_uses pre) T"
      using dp by (simp add: map_of_rev_distinct)
    moreover have "map_of (tool_uses (pre @ b # bs)) T = map_of (tool_uses pre) T"
    proof -
      from later have "map_of (tool_uses bs) T = None" by (simp add: map_of_eq_None_iff)
      then show ?thesis
        using ToolResultBlock
        by (simp add: tool_uses_append map_add_def split: option.splits)
    qed
    moreover have "tool_uses (pre @ [b]) = tool_uses pre"
      using ToolResultBlock by (simp add: tool_uses_append)
    ultimately show ?thesis
      using Cons.IH [OF d r] ToolResultBlock by simp
  next
    case (TextBlock t)
    from Cons.prems TextBlock have d: "distinct (map fst (tool_uses ((pre @ [b]) @ bs)))"
      and r: "results_follow_uses bs" by simp_all
    from Cons.IH [OF d r] TextBlock show ?thesis by (simp add: tool_uses_append)
  next
    case (ImageBlock m dta)
    from Cons.prems ImageBlock have d: "distinct (map fst (tool_uses ((pre @ [b]) @ bs)))"
      and r: "results_follow_uses bs" by simp_all
    from Cons.IH [OF d r] ImageBlock show ?thesis by (simp add: tool_uses_append)
  next
    case (OtherBlock ty)
    from Cons.prems OtherBlock have d: "distinct (map fst (tool_uses ((pre @ [b]) @ bs)))"
      and r: "results_follow_uses bs" by simp_all
    from Cons.IH [OF d r] OtherBlock show ?thesis by (simp add: tool_uses_append)
  qed
qed

lemma block_tool_result_ids_append:
  "block_tool_result_ids (xs @ ys) = block_tool_result_ids xs @ block_tool_result_ids ys"
  by (induction xs rule: block_tool_result_ids.induct) auto

lemma tool_result_ids_all_blocks: "tool_result_ids msgs = block_tool_result_ids (all_blocks msgs)"
  by (induction msgs)
     (simp_all add: tool_result_ids_def all_blocks_def block_tool_result_ids_append)

lemma well_formed_names_agree:
  assumes "well_formed_tool_turns msgs"
  shows "map (function_name msgs) (tool_result_ids msgs) = spec_function_names msgs"
proof -
  from assms have d: "distinct (map fst (tool_uses (all_blocks msgs)))"
    and r: "results_follow_uses (all_blocks msgs)"
    by (simp_all add: well_formed_tool_turns_def)
  have "spec_function_names msgs = spec_names (rev (tool_uses [])) (all_blocks msgs)"
    by (simp add: spec_function_names_def all_blocks_def)
  also have "\<dots> = map (\<lambda>T. case map_of (tool_uses ([] @ all_blocks msgs)) T of
                               None \<Rightarrow> T | Some n \<Rightarrow> n)
                       (block_tool_result_ids (all_blocks msgs))"
    by (rule spec_names_distinct) (use d r in simp_all)
  also have "\<dots> = map (function_name msgs) (tool_result_ids msgs)"
    by (simp add: function_name_distinct [OF d] tool_result_ids_all_blocks)
  finally show ?thesis by simp
qed

text \<open>
  How the code names the function responses. Their names are, in order, the names
  resolved for the \<^verbatim>\<open>tool_use_id\<close>s of the \<^verbatim>\<open>tool_result\<close> blocks of the request, and the
  not-found warning is logged for exactly those whose resolved name is the id itself.
  The name resolved for an id \<open>T\<close> is \<open>T\<close> when no message of the request has a \<^verbatim>\<open>tool_use\<close>
  block with that id; otherwise it is the name of the first such block in the last message
  of the whole request that has one, when that name differs from \<open>T\<close>.
\<close>

lemma function_response_names_resolved:
  assumes "claudeToGeminiRequest mcp s ts r = Inr (g, ls, r')"
  shows "function_response_names (concat (map parts (contents g)))
           = map (function_name (request_messages r)) (tool_result_ids (request_messages r))
       \<and> not_found_ids ls
           = filter (\<lambda>T. function_name (request_messages r) T = T)
               (tool_result_ids (request_messages r))
       \<and> (\<forall>T. (\<forall>m \<in> set (request_messages r). tool_use_in T m = None)
              \<longrightarrow> function_name (request_messages r) T = T)
       \<and> (\<forall>T before m after n.
              request_messages r = before @ m # after
              \<and> (\<forall>m' \<in> set after. tool_use_in T m' = None)
              \<and> tool_use_in T m = Some n \<and> n \<noteq> T
              \<longrightarrow> function_name (request_messages r) T = n)"
proof (intro conjI allI impI)
  show "function_response_names (concat (map parts (contents g)))
           = map (function_name (request_messages r)) (tool_result_ids (request_messages r))"
    by (rule translated_names [OF assms])
  show "not_found_ids ls
           = filter (\<lambda>T. function_name (request_messages r) T = T)
               (tool_result_ids (request_messages r))"
    by (rule convert_messages_not_found [OF translation_contents [OF assms]])
next
  fix T
  assume "\<forall>m \<in> set (request_messages r). tool_use_in T m = None"
  then show "function_name (request_messages r) T = T" by (rule function_name_none)
next
  fix T before m after n
  assume "request_messages r = before @ m # after
              \<and> (\<forall>m' \<in> set after. tool_use_in T m' = None)
              \<and> tool_use_in T m = Some n \<and> n \<noteq> T"
  then show "function_name (request_messages r) T = n"
    by (blast intro: function_name_found)
qed

text \<open>
  When the ids of the \<^verbatim>\<open>tool_use\<close> blocks of a request are distinct and none follows a
  \<^verbatim>\<open>tool_result\<close> with its id, the code gives every function response the name that the
  specification gives it.
\<close>

lemma well_formed_names:
  assumes "claudeToGeminiRequest mcp s ts r = Inr (g, ls, r')"
    and "well_formed_tool_turns (request_messages r)"
  shows "function_response_names (concat (map parts (contents g)))
           = spec_function_names (request_messages r)"
  using assms(2) by (simp add: translated_names [OF assms(1)] well_formed_names_agree)

text \<open>
  C2. The claim names a function response after the most recent \<^verbatim>\<open>tool_use\<close> block with the
  id of the \<^verbatim>\<open>tool_result\<close> in the messages before it, and the comment of the code says the
  same (\<^verbatim>\<open>Find the corresponding tool_use from previous messages\<close>). The loop of the code runs
  over all messages of the request, from the last one down. In the request below the
  assistant uses the id \<^verbatim>\<open>t1\<close> for a tool named \<^verbatim>\<open>a\<close>, the user answers it, and a later
  assistant message uses \<^verbatim>\<open>t1\<close> again for a tool named \<^verbatim>\<open>b\<close>: the function response of the
  answer is named \<^verbatim>\<open>b\<close>, where the claim gives \<^verbatim>\<open>a\<close>.
\<close>

theorem tool_result_named_after_later_message:
  "function_response_names
     (concat (map parts (translated_contents
        (claudeToGeminiRequest None stringify_stub to_string_stub reused_id_request)))) = [''b'']
   \<and> spec_function_names (request_messages reused_id_request) = [''a'']"
  by (simp add: translation_defs reused_id_request_def translated_contents_def
        spec_function_names_def message_blocks_def)

text \<open>
  C8. The claim asks for a \<^verbatim>\<open>tool_config\<close> whose mode follows \<^verbatim>\<open>tool_choice\<close>. The translated
  request and the console lines are the same whatever \<^verbatim>\<open>tool_choice\<close> the request carries:
  the function never reads it, and the object it returns has no \<^verbatim>\<open>tool_config\<close>.
\<close>

theorem tool_choice_ignored:
  "map_sum id (\<lambda>(g, ls, r'). (g, ls)) (claudeToGeminiRequest mcp s ts (r\<lparr>tool_choice := tc\<rparr>))
     = map_sum id (\<lambda>(g, ls, r'). (g, ls)) (claudeToGeminiRequest mcp s ts r)"
  by (simp add: claudeToGeminiRequest_def request_messages_def all_tools_def Let_def
           split: sum.splits prod.splits)

text \<open>
  C7. The claim asks that the request is the same object after the call as before. For a
  \<^verbatim>\<open>tool_result\<close> with \<^verbatim>\<open>is_error\<close> whose content is a JSON object, the call writes \<^verbatim>\<open>error\<close> and
  \<^verbatim>\<open>error_message\<close> into that content object of the request.
\<close>

theorem tool_result_content_mutated:
  "claudeToGeminiRequest None s ts error_result_request =
     Inr (\<lparr>contents = [\<lparr>role = ''user'', parts =
              [FunctionResponsePart ''toolu_1''
                 (JObj [(''code'', JNum 1), (''error'', JBool True),
                        (''error_message'',
                           JStr (s (JObj [(''code'', JNum 1), (''error'', JBool True)] None)))] None)]\<rparr>],
           safetySettings = safety_settings,
           generationConfig = \<lparr>maxOutputTokens = Some 4096, gc_temperature = None, topP = None,
                                topK = None, stopSequences = None\<rparr>,
           system_instruction = None, gemini_tools = None\<rparr>,
          [WarnToolExecutionFailed ''toolu_1'' ''toolu_1'', WarnFunctionNameNotFound ''toolu_1''],
          error_result_request\<lparr>messages := Some
            [\<lparr>msg_role = ''user'', msg_content = BlockContent
               [ToolResultBlock ''toolu_1''
                  (Some (JObj [(''code'', JNum 1), (''error'', JBool True),
                               (''error_message'',
                                  JStr (s (JObj [(''code'', JNum 1), (''error'', JBool True)] None)))] None))
                  True]\<rparr>]\<rparr>)
   \<and> error_result_request\<lparr>messages := Some
            [\<lparr>msg_role = ''user'', msg_content = BlockContent
               [ToolResultBlock ''toolu_1''
                  (Some (JObj [(''code'', JNum 1), (''error'', JBool True),
                               (''error_message'',
                                  JStr (s (JObj [(''code'', JNum 1), (''error'', JBool True)] None)))] None))
                  True]\<rparr>]\<rparr> \<noteq> error_result_request"
  by (simp add: translation_defs error_result_request_def)

subsection \<open>What the call leaves of the request\<close>

text \<open>
  Apart from the blocks above, the call leaves the request as it was; and what it writes
  does not change what the name search finds, so the search can be given the messages of
  the request as they were.
\<close>

lemma convert_block_same:
  assumes "convert_block s msgs b = Inr (ps, ls, b')" and "\<not> writes_into_content b"
  shows "b' = b"
proof (cases b)
  case (ToolResultBlock T c e)
  with assms(1) obtain v where v: "c = Some v" by (cases c) auto
  show ?thesis
  proof (cases "\<exists>es p. v = JObj es p")
    case True
    then obtain es p where "v = JObj es p" by blast
    with assms ToolResultBlock v show ?thesis
      by (auto simp: Let_def split: prod.splits)
  next
    case False
    with assms(1) ToolResultBlock v show ?thesis
      by (cases v) (auto simp: Let_def split: prod.splits)
  qed
qed (use assms in auto)

lemma convert_blocks_same:
  "convert_blocks s msgs bs = Inr (ps, ls, bs') \<Longrightarrow>
   \<forall>b \<in> set bs. \<not> writes_into_content b \<Longrightarrow> bs' = bs"
proof (induction bs arbitrary: ps ls bs')
  case Nil
  then show ?case by simp
next
  case (Cons b bs)
  from Cons.prems(1) obtain p1 l1 b1 where
    cb: "convert_block s msgs b = Inr (p1, l1, b1)"
    by (auto split: sum.splits)
  with Cons.prems(1) obtain p2 l2 b2 where
    rec: "convert_blocks s msgs bs = Inr (p2, l2, b2)" and bs': "bs' = b1 # b2"
    by (auto split: sum.splits)
  from convert_block_same [OF cb] Cons.prems(2) have "b1 = b" by simp
  moreover from Cons.IH [OF rec] Cons.prems(2) have "b2 = bs" by simp
  ultimately show ?case using bs' by simp
qed

lemma convert_message_same:
  assumes "convert_message s msgs m = Inr (ps, ls, m')"
    and "\<forall>b \<in> set (message_blocks m). \<not> writes_into_content b"
  shows "m' = m"
proof (cases "msg_content m")
  case (BlockContent bs)
  with assms(1) obtain bs' where
    cb: "convert_blocks s msgs bs = Inr (ps, ls, bs')" and m': "m' = m\<lparr>msg_content := BlockContent bs'\<rparr>"
    by (auto simp: convert_message_def split: sum.splits)
  from convert_blocks_same [OF cb] assms(2) BlockContent have "bs' = bs"
    by (simp add: message_blocks_def)
  with m' BlockContent show ?thesis by simp
qed (use assms(1) in \<open>auto simp: convert_message_def\<close>)

lemma convert_messages_same:
  "convert_messages s msgs ms cs = Inr (cs', ls, ms') \<Longrightarrow>
   \<forall>m \<in> set ms. \<forall>b \<in> set (message_blocks m). \<not> writes_into_content b \<Longrightarrow> ms' = ms"
proof (induction ms arbitrary: cs cs' ls ms')
  case Nil
  then show ?case by simp
next
  case (Cons a ms)
  from Cons.prems(1) obtain ps l1 a' where
    cm: "convert_message s msgs a = Inr (ps, l1, a')"
    by (auto split: sum.splits)
  with Cons.prems(1) obtain l2 rest' where
    rec: "convert_messages s msgs ms (push_content cs (gemini_role a) ps) = Inr (cs', l2, rest')"
    and ms': "ms' = a' # rest'"
    by (auto split: sum.splits)
  from convert_message_same [OF cm] Cons.prems(2) have "a' = a" by simp
  moreover from Cons.IH [OF rec] Cons.prems(2) have "rest' = ms" by simp
  ultimately show ?case using ms' by simp
qed

lemma translation_messages_after:
  assumes "claudeToGeminiRequest mcp s ts r = Inr (g, ls, r')"
  shows "r' = r\<lparr>messages := (case messages r of None \<Rightarrow> None
                               | Some ms \<Rightarrow> Some (request_messages r'))\<rparr>"
  using assms
  by (auto simp: claudeToGeminiRequest_def Let_def request_messages_def
           split: sum.splits option.splits)

lemma input_unchanged_without_error_object:
  assumes "claudeToGeminiRequest mcp s ts r = Inr (g, ls, r')"
    and "\<forall>m \<in> set (request_messages r). \<forall>b \<in> set (message_blocks m). \<not> writes_into_content b"
  shows "r' = r"
proof -
  from convert_messages_same [OF translation_contents [OF assms(1)] assms(2)]
  have "request_messages r' = request_messages r" .
  with translation_messages_after [OF assms(1)] show ?thesis
    by (cases "messages r") (simp_all add: request_messages_def)
qed

text \<open>The name search reads the same from the messages whatever the loop has written.\<close>

lemma convert_blocks_tool_use:
  "convert_blocks s msgs bs = Inr (ps, ls, bs') \<Longrightarrow> find_tool_use T bs' = find_tool_use T bs"
proof (induction bs arbitrary: ps ls bs')
  case Nil
  then show ?case by simp
next
  case (Cons b bs)
  from Cons.prems(1) obtain p1 l1 b1 where
    cb: "convert_block s msgs b = Inr (p1, l1, b1)"
    by (auto split: sum.splits)
  with Cons.prems(1) obtain p2 l2 b2 where
    rec: "convert_blocks s msgs bs = Inr (p2, l2, b2)" and bs': "bs' = b1 # b2"
    by (auto split: sum.splits)
  from Cons.IH [OF rec] have ih: "find_tool_use T b2 = find_tool_use T bs" .
  show ?case
  proof (cases b)
    case (ToolResultBlock T0 c e)
    with cb obtain v where "c = Some v" by (cases c) auto
    with cb ToolResultBlock ih bs' show ?thesis by (auto simp: Let_def split: prod.splits)
  qed (use cb ih bs' in auto)
qed

lemma convert_message_tool_use:
  "convert_message s msgs m = Inr (ps, ls, m') \<Longrightarrow> tool_use_in T m' = tool_use_in T m"
  by (auto simp: convert_message_def tool_use_in_def
           split: message_content.splits sum.splits dest: convert_blocks_tool_use)

lemma convert_messages_tool_use:
  "convert_messages s msgs ms cs = Inr (cs', ls, ms') \<Longrightarrow>
   map (tool_use_in T) ms' = map (tool_use_in T) ms"
proof (induction ms arbitrary: cs cs' ls ms')
  case Nil
  then show ?case by simp
next
  case (Cons a ms)
  from Cons.prems(1) obtain ps l1 a' where
    cm: "convert_message s msgs a = Inr (ps, l1, a')"
    by (auto split: sum.splits)
  with Cons.prems(1) obtain l2 rest' where
    rec: "convert_messages s msgs ms (push_content cs (gemini_role a) ps) = Inr (cs', l2, rest')"
    and ms': "ms' = a' # rest'"
    by (auto split: sum.splits)
  from convert_message_tool_use [OF cm] Cons.IH [OF rec] ms' show ?case by simp
qed

lemma search_backwards_tool_use:
  "map (tool_use_in T) ms' = map (tool_use_in T) ms \<Longrightarrow>
   search_backwards T ms' fn = search_backwards T ms fn"
proof (induction ms arbitrary: ms' fn)
  case Nil
  then show ?case by simp
next
  case (Cons m ms)
  then obtain m' rest' where ms': "ms' = m' # rest'"
    and h: "tool_use_in T m' = tool_use_in T m"
    and t: "map (tool_use_in T) rest' = map (tool_use_in T) ms"
    by (cases ms') auto
  have step: "(case msg_content x of
                 BlockContent bs \<Rightarrow> (case find_tool_use T bs of Some n \<Rightarrow> n | None \<Rightarrow> fn)
               | _ \<Rightarrow> fn) = (case tool_use_in T x of Some n \<Rightarrow> n | None \<Rightarrow> fn)" for x
    by (simp add: tool_use_in_def split: message_content.splits)
  show ?case
    unfolding ms' search_backwards.simps step h Let_def
    using Cons.IH [OF t] by simp
qed

lemma function_name_tool_use:
  "map (tool_use_in T) msgs' = map (tool_use_in T) msgs \<Longrightarrow>
   function_name msgs' T = function_name msgs T"
  unfolding function_name_def
  by (rule search_backwards_tool_use) (simp add: rev_map [symmetric])

lemma function_name_after_translation:
  assumes "claudeToGeminiRequest mcp s ts r = Inr (g, ls, r')"
  shows "function_name (request_messages r') T = function_name (request_messages r) T"
  by (rule function_name_tool_use
        [OF convert_messages_tool_use [OF translation_contents [OF assms]]])

section \<open>Properties of the response translators\<close>

lemma text_deltas_append: "text_deltas (xs @ ys) = text_deltas xs @ text_deltas ys"
  by (induction xs rule: text_deltas.induct) auto

lemma text_blocks_append: "text_blocks (xs @ ys) = text_blocks xs @ text_blocks ys"
  by (induction xs rule: text_blocks.induct) auto

lemma text_deltas_part_events:
  "text_deltas (part_events rid str this k p) = (if has_text p then [the (part_text p)] else [])"
  by (auto simp: part_events_def split: option.splits)

lemma text_blocks_response_block:
  "text_blocks (response_block rid k p) = (if has_text p then [the (part_text p)] else [])"
  by (auto simp: response_block_def split: option.splits)

lemma text_deltas_parts:
  "text_deltas (concat (map (\<lambda>(k, p). part_events rid str this k p) (enumerate n ps)))
     = part_texts ps"
  by (induction ps arbitrary: n)
     (auto simp: part_texts_def text_deltas_append text_deltas_part_events)

lemma text_blocks_parts:
  "text_blocks (concat (map (\<lambda>(k, p). response_block rid k p) (enumerate n ps)))
     = part_texts ps"
  by (induction ps arbitrary: n)
     (auto simp: part_texts_def text_blocks_append text_blocks_response_block)

lemma text_deltas_convertChunk:
  "text_deltas (fst (convertChunk rid str this d)) = part_texts (response_parts d)"
  by (auto simp: convertChunk_def response_parts_def text_deltas_append text_deltas_parts
                 part_texts_def split: option.splits)

lemma text_deltas_convert_chunks:
  "text_deltas (convert_chunks rid str this ds) = concat (map (\<lambda>d. part_texts (response_parts d)) ds)"
proof (induction ds arbitrary: this)
  case Nil
  show ?case by simp
next
  case (Cons d ds)
  obtain ev this' where c: "convertChunk rid str this d = (ev, this')" by (cases "convertChunk rid str this d")
  have "text_deltas ev = part_texts (response_parts d)"
    using text_deltas_convertChunk [of rid str this d] c by simp
  with Cons c show ?case by (simp add: text_deltas_append)
qed

lemma sync_texts_parts: "sync_texts rid resp = part_texts (response_parts resp)"
  by (auto simp: sync_texts_def geminiToClaudeResponse_def response_parts_def text_blocks_parts
                 part_texts_def split: option.splits)

lemma part_texts_concat: "part_texts (concat pss) = concat (map part_texts pss)"
  by (induction pss) (auto simp: part_texts_def)

text \<open>
  C5. For every sequence of upstream chunks, the text of the \<^verbatim>\<open>text_delta\<close> events of the
  streaming converter, concatenated, is the concatenated text of the text blocks that the
  synchronous converter produces from the same upstream data: chunk by chunk (a chunk
  without a candidate gives no event, and no message either), and also for any single
  reply whose first candidate carries the parts of all the chunks.
\<close>

theorem stream_text_equals_sync_text:
  "concat (text_deltas (convert_chunks rid str this ds))
     = concat (concat (map (sync_texts rid') ds))
   \<and> (\<forall>resp. first_candidate resp \<noteq> None
              \<and> response_parts resp = concat (map response_parts ds)
        \<longrightarrow> (\<exists>message. geminiToClaudeResponse rid' resp = Inr message
                 \<and> concat (text_blocks (content message))
                     = concat (text_deltas (convert_chunks rid str this ds))))"
proof (intro conjI allI impI)
  show "concat (text_deltas (convert_chunks rid str this ds))
          = concat (concat (map (sync_texts rid') ds))"
  proof -
    have "map (sync_texts rid') ds = map (\<lambda>d. part_texts (response_parts d)) ds"
      by (simp add: sync_texts_parts)
    then show ?thesis by (simp only: text_deltas_convert_chunks)
  qed
next
  fix resp
  assume a: "first_candidate resp \<noteq> None \<and> response_parts resp = concat (map response_parts ds)"
  then obtain c where c: "first_candidate resp = Some c" by auto
  let ?content = "concat (map (\<lambda>(k, p). response_block rid' k p) (enumerate 0 (candidate_parts c)))"
  have r: "geminiToClaudeResponse rid' resp = Inr \<lparr>content = ?content\<rparr>"
    by (simp add: geminiToClaudeResponse_def c)
  have "text_blocks ?content = part_texts (response_parts resp)"
    by (simp add: text_blocks_parts response_parts_def c)
  also have "\<dots> = concat (map (\<lambda>d. part_texts (response_parts d)) ds)"
    using a by (simp add: part_texts_concat comp_def)
  finally have "concat (text_blocks ?content) = concat (text_deltas (convert_chunks rid str this ds))"
    by (simp add: text_deltas_convert_chunks)
  with r show "\<exists>message. geminiToClaudeResponse rid' resp = Inr message
                 \<and> concat (text_blocks (content message))
                     = concat (text_deltas (convert_chunks rid str this ds))"
    by (intro exI [of _ "\<lparr>content = ?content\<rparr>"]) simp
qed

theorem stream_text_equals_sync_text_witness:
  "first_candidate S5_reply \<noteq> None
   \<and> response_parts S5_reply = concat (map response_parts S5_chunks)
   \<and> (\<exists>message. geminiToClaudeResponse random_id_stub S5_reply = Inr message
         \<and> concat (text_blocks (content message))
             = concat (text_deltas
                 (convert_chunks random_id_stub stringify_stub new_converter S5_chunks)))
   \<and> concat (concat (map (sync_texts random_id_stub) S5_chunks)) = ''Hello world''"
proof -
  have c: "first_candidate S5_reply \<noteq> None"
    by (simp add: S5_reply_def first_candidate_def)
  have p: "response_parts S5_reply = concat (map response_parts S5_chunks)"
    by (simp add: S5_reply_def S5_chunks_def text_chunk_def response_parts_def
          first_candidate_def candidate_parts_def)
  have t: "concat (concat (map (sync_texts random_id_stub) S5_chunks)) = ''Hello world''"
    by (simp add: S5_chunks_def text_chunk_def sync_texts_def geminiToClaudeResponse_def
          first_candidate_def candidate_parts_def response_block_def has_text_def)
  note inst = stream_text_equals_sync_text
    [of random_id_stub stringify_stub new_converter S5_chunks random_id_stub]
  from inst c p
  have "\<exists>message. geminiToClaudeResponse random_id_stub S5_reply = Inr message
         \<and> concat (text_blocks (content message))
             = concat (text_deltas
                 (convert_chunks random_id_stub stringify_stub new_converter S5_chunks))"
    by blast
  with c p t show ?thesis by blast
qed

section \<open>Properties of the stream parser\<close>

lemma match_here_frame:
  assumes "\<forall>c \<in> set p. \<not> is_line_terminator c"
  shows "match_here (frame p @ rest) = Some (p, length (frame p))"
proof -
  let ?nl = "[CHR 0x0A, CHR 0x0A]"
  have d: "drop 6 (frame p @ rest) = p @ ?nl @ rest"
    by (simp add: frame_def)
  have tw: "takeWhile (\<lambda>c. \<not> is_line_terminator c) (p @ ?nl @ rest) = p"
    using assms by (simp add: takeWhile_append2 is_line_terminator_def)
  have dw: "dropWhile (\<lambda>c. \<not> is_line_terminator c) (p @ ?nl @ rest) = ?nl @ rest"
    using assms by (simp add: dropWhile_append2 is_line_terminator_def)
  have t: "take 6 (frame p @ rest) = ''data: ''"
    by (simp add: frame_def)
  have fe: "frame_end (?nl @ rest) = Some 2"
    by (simp add: frame_end_def)
  show ?thesis
    unfolding match_here_def t d tw dw fe Let_def
    by (simp add: frame_def)
qed

text \<open>
  One complete frame per call, on an empty buffer, is parsed and leaves the buffer empty;
  so frames that arrive one per chunk all come out.
\<close>

lemma parse_one_frame:
  assumes "\<forall>c \<in> set p. \<not> is_line_terminator c" and "json_parse p = Some d"
  shows "parse json_parse [] (frame p) = ([d], [])"
proof -
  have len: "0 < length (frame p)" by (simp add: frame_def)
  have m: "match_here (frame p) = Some (p, length (frame p))"
    using match_here_frame [OF assms(1), of "[]"] by simp
  have e1: "regex_exec (frame p) 0 = Some (0, p, length (frame p))"
    by (simp add: regex_exec_def scan_from.simps [of True 0] m)
  have e2: "regex_exec [] (length (frame p)) = None"
    using len by (simp add: regex_exec_def)
  show ?thesis
    unfolding parse_def
    by (simp add: parse_loop.simps [of json_parse "frame p" 0]
          parse_loop.simps [of json_parse "[]" "length (frame p)"] e1 e2 assms(2))
qed

lemma one_frame_per_chunk:
  assumes "\<forall>p \<in> set ps. (\<forall>c \<in> set p. \<not> is_line_terminator c) \<and> json_parse p \<noteq> None"
  shows "parse_chunks json_parse [] (map frame ps) = map (\<lambda>p. the (json_parse p)) ps"
  using assms
proof (induction ps)
  case Nil
  show ?case by simp
next
  case (Cons p ps)
  then obtain d where d: "json_parse p = Some d" by auto
  from Cons.prems have nl: "\<forall>c \<in> set p. \<not> is_line_terminator c" by simp
  have "parse json_parse [] (frame p) = ([d], [])"
    using nl d by (rule parse_one_frame)
  with Cons d show ?case by simp
qed

text \<open>
  Two frames in one call: the first is returned, the second stays in the buffer, whatever
  the payloads. After the first match the regex resumes at the length of the first frame,
  in a buffer that now starts with the second.
\<close>

lemma match_here_short: "length s < 6 \<Longrightarrow> match_here s = None"
  by (auto simp: match_here_def dest: take_eq_imp_le)

lemma scan_from_tail:
  assumes "\<forall>c \<in> set s. \<not> is_line_terminator c"
  shows "scan_from False i (s @ [CHR 0x0A, CHR 0x0A]) = None"
  using assms
proof (induction s arbitrary: i)
  case Nil
  show ?case
    by (simp add: scan_from.simps [of _ _ "[CHR 0x0A, CHR 0x0A]"]
          scan_from.simps [of _ _ "[CHR 0x0A]"] scan_from.simps [of _ _ "[]"]
          match_here_short is_line_terminator_def)
next
  case (Cons c s)
  then show ?case
    by (simp add: scan_from.simps [of False i])
qed

lemma frame_nth_not_terminator:
  assumes "\<forall>c \<in> set q. \<not> is_line_terminator c" and "k < 6 + length q"
  shows "\<not> is_line_terminator (frame q ! k)"
proof -
  define pre where "pre = ''data: ''"
  have len: "length pre = 6" and fr: "frame q = (pre @ q) @ [CHR 0x0A, CHR 0x0A]"
    by (simp_all add: pre_def frame_def)
  have k: "k < length (pre @ q)" using assms(2) len by simp
  then have "frame q ! k = (pre @ q) ! k"
    unfolding fr by (rule nth_append_left)
  moreover have "\<forall>c \<in> set (pre @ q). \<not> is_line_terminator c"
    using assms(1) by (simp add: is_line_terminator_def pre_def)
  ultimately show ?thesis using k by (metis nth_mem)
qed

lemma regex_exec_after_first_frame:
  assumes "\<forall>c \<in> set q. \<not> is_line_terminator c" and "6 \<le> L"
  shows "regex_exec (frame q) L = None"
proof -
  let ?M = "length (frame q)"
  have M: "?M = 8 + length q" by (simp add: frame_def)
  consider "?M < L" | "L = ?M" | "L = ?M - 1" | "L \<le> ?M - 2" by linarith
  then show ?thesis
  proof cases
    case 1
    then show ?thesis by (simp add: regex_exec_def)
  next
    case 2
    then show ?thesis
      by (simp add: regex_exec_def scan_from.simps [of _ _ "[]"] match_here_short)
  next
    case 3
    then have "drop L (frame q) = [CHR 0x0A]"
      using M by (simp add: frame_def)
    with 3 M show ?thesis
      by (simp add: regex_exec_def scan_from.simps [of _ _ "[CHR 0x0A]"]
            scan_from.simps [of _ _ "[]"] match_here_short)
  next
    case 4
    with M assms(2) have k: "L - 1 < 6 + length q" and pos: "0 < L" by simp_all
    have b: "\<not> is_line_terminator (frame q ! (L - 1))"
      by (rule frame_nth_not_terminator [OF assms(1) k])
    define pre where "pre = ''data: ''"
    have len: "length pre = 6" and fr: "frame q = pre @ q @ [CHR 0x0A, CHR 0x0A]"
      by (simp_all add: pre_def frame_def)
    have d: "drop L (frame q) = drop (L - 6) q @ [CHR 0x0A, CHR 0x0A]"
      unfolding fr using 4 M assms(2) len by simp
    have "\<forall>c \<in> set (drop (L - 6) q). \<not> is_line_terminator c"
      using assms(1) by (meson in_set_dropD)
    from scan_from_tail [OF this] 4 pos b d show ?thesis
      by (simp add: regex_exec_def)
  qed
qed

lemma second_frame_kept_back:
  assumes "\<forall>c \<in> set p. \<not> is_line_terminator c" and "\<forall>c \<in> set q. \<not> is_line_terminator c"
    and "json_parse p = Some a"
  shows "parse json_parse [] (frame p @ frame q) = ([a], frame q)"
proof -
  have L: "6 \<le> length (frame p)" by (simp add: frame_def)
  have e1: "regex_exec (frame p @ frame q) 0 = Some (0, p, length (frame p))"
    by (simp add: regex_exec_def scan_from.simps [of True 0] match_here_frame [OF assms(1)])
  have e2: "regex_exec (frame q) (length (frame p)) = None"
    by (rule regex_exec_after_first_frame [OF assms(2) L])
  show ?thesis
    unfolding parse_def
    by (simp add: parse_loop.simps [of json_parse "frame p @ frame q" 0]
          parse_loop.simps [of json_parse "frame q" "length (frame p)"] e1 e2 assms(3))
qed

text \<open>
  C10. The claim asks that feeding well-formed frames in any split gives the events of
  feeding them in one call. Two frames fed in one chunk give only the first event (the
  second frame stays in the buffer: after the first match the buffer is cut, but the regex
  resumes at the old end of the match); fed as two chunks they give both.
\<close>

theorem frames_in_one_chunk_lost:
  "parse_chunks digit_payload [] [frame ''1'' @ frame ''2''] = [JNum 1]
   \<and> parse_chunks digit_payload [] [frame ''1'', frame ''2''] = [JNum 1, JNum 2]
   \<and> parse digit_payload [] (frame ''1'' @ frame ''2'') = ([JNum 1], frame ''2'')"
  by code_simp

end
